theory Spec2Isabelle
  imports Complex_Main "HOL-Library.AList" "HOL-Library.Multiset"
begin

section \<open>Python values\<close>

text \<open>
  The exceptions the code can raise: the five kinds of \<^verbatim>\<open>custom_errors\<close> that the
  sources name, and the built-in exceptions of the interpreter that the modelled
  operations can hit.
\<close>

datatype error =
    CustomTypeError
  | CustomValueError
  | RaceIsFullError
  | RunnerAlreadyExistsError
  | RunnerDoesntExistError
  | TypeError
  | KeyError
  | IndexError
  | OverflowError
  | ValueError
  | ZeroDivisionError

text \<open>
  A Python \<^verbatim>\<open>float\<close>. The special values are kept, because the code's comparisons
  let an infinity through and \<^verbatim>\<open>math.ceil\<close> raises on it. A finite float is
  represented by the real number it denotes and arithmetic on finite floats is exact: the
  rounding and the overflow of binary64 arithmetic are not part of this model.
\<close>

datatype pyfloat = Fin real | PosInf | NegInf | NaN

fun fl_lt :: "pyfloat \<Rightarrow> pyfloat \<Rightarrow> bool" where
  "fl_lt NaN _ = False"
| "fl_lt _ NaN = False"
| "fl_lt (Fin a) (Fin b) = (a < b)"
| "fl_lt (Fin a) PosInf = True"
| "fl_lt (Fin a) NegInf = False"
| "fl_lt PosInf _ = False"
| "fl_lt NegInf NegInf = False"
| "fl_lt NegInf _ = True"

fun fl_le :: "pyfloat \<Rightarrow> pyfloat \<Rightarrow> bool" where
  "fl_le NaN _ = False"
| "fl_le _ NaN = False"
| "fl_le a b = (\<not> fl_lt b a)"

fun fl_add :: "pyfloat \<Rightarrow> pyfloat \<Rightarrow> pyfloat" where
  "fl_add NaN _ = NaN"
| "fl_add _ NaN = NaN"
| "fl_add (Fin a) (Fin b) = Fin (a + b)"
| "fl_add PosInf NegInf = NaN"
| "fl_add NegInf PosInf = NaN"
| "fl_add PosInf _ = PosInf"
| "fl_add _ PosInf = PosInf"
| "fl_add NegInf _ = NegInf"
| "fl_add _ NegInf = NegInf"

fun fl_neg :: "pyfloat \<Rightarrow> pyfloat" where
  "fl_neg (Fin a) = Fin (- a)"
| "fl_neg PosInf = NegInf"
| "fl_neg NegInf = PosInf"
| "fl_neg NaN = NaN"

text \<open>The product of an infinity and a finite float takes the sign of the product.\<close>

fun inf_times :: "pyfloat \<Rightarrow> real \<Rightarrow> pyfloat" where
  "inf_times i a = (if a = 0 then NaN else if 0 < a then i else fl_neg i)"

fun fl_mul :: "pyfloat \<Rightarrow> pyfloat \<Rightarrow> pyfloat" where
  "fl_mul NaN _ = NaN"
| "fl_mul _ NaN = NaN"
| "fl_mul (Fin a) (Fin b) = Fin (a * b)"
| "fl_mul (Fin a) PosInf = inf_times PosInf a"
| "fl_mul (Fin a) NegInf = inf_times NegInf a"
| "fl_mul PosInf (Fin b) = inf_times PosInf b"
| "fl_mul NegInf (Fin b) = inf_times NegInf b"
| "fl_mul PosInf PosInf = PosInf"
| "fl_mul PosInf NegInf = NegInf"
| "fl_mul NegInf PosInf = NegInf"
| "fl_mul NegInf NegInf = PosInf"

text \<open>
  \<^verbatim>\<open>a / b\<close> on floats raises \<^verbatim>\<open>ZeroDivisionError\<close> when \<^verbatim>\<open>b\<close> is zero,
  whatever \<^verbatim>\<open>a\<close> is.
\<close>

fun fl_div :: "pyfloat \<Rightarrow> pyfloat \<Rightarrow> error + pyfloat" where
  "fl_div a (Fin b) =
     (if b = 0 then Inl ZeroDivisionError
      else case a of
          Fin x \<Rightarrow> Inr (Fin (x / b))
        | NaN \<Rightarrow> Inr NaN
        | i \<Rightarrow> Inr (inf_times i b))"
| "fl_div NaN _ = Inr NaN"
| "fl_div _ NaN = Inr NaN"
| "fl_div (Fin a) _ = Inr (Fin 0)"
| "fl_div _ _ = Inr NaN"

text \<open>
  \<^verbatim>\<open>round(x, 2)\<close>: the nearest multiple of 0.01, a tie going to the even multiple;
  an infinity or a NaN is returned as it is.
\<close>

definition round_half_even :: "real \<Rightarrow> int" where
  "round_half_even x =
     (let f = \<lfloor>x\<rfloor>; d = x - of_int f
      in if d < 1 / 2 then f
         else if 1 / 2 < d then f + 1
         else if even f then f else f + 1)"

fun py_round2 :: "pyfloat \<Rightarrow> pyfloat" where
  "py_round2 (Fin x) = Fin (of_int (round_half_even (x * 100)) / 100)"
| "py_round2 x = x"

text \<open>
  \<^verbatim>\<open>math.ceil\<close>: an integer for a finite float, \<^verbatim>\<open>OverflowError\<close> for an infinity,
  \<^verbatim>\<open>ValueError\<close> for a NaN.
\<close>

fun py_ceil :: "pyfloat \<Rightarrow> error + int" where
  "py_ceil (Fin x) = Inr \<lceil>x\<rceil>"
| "py_ceil NaN = Inl ValueError"
| "py_ceil _ = Inl OverflowError"

text \<open>
  The values that reach the constructors and methods as arguments. A runner object is
  its address in the heap; \<^verbatim>\<open>bool\<close> is a subclass of \<^verbatim>\<open>int\<close>, so
  \<^verbatim>\<open>isinstance(True, int)\<close> holds.
\<close>

datatype pyval =
    PNone
  | PBool bool
  | PInt int
  | PFloat pyfloat
  | PStr string
  | PRunner nat
  | PList "pyval list"

fun is_str :: "pyval \<Rightarrow> bool" where
  "is_str (PStr _) = True"
| "is_str _ = False"

fun is_int :: "pyval \<Rightarrow> bool" where
  "is_int (PInt _) = True"
| "is_int (PBool _) = True"
| "is_int _ = False"

fun is_float :: "pyval \<Rightarrow> bool" where
  "is_float (PFloat _) = True"
| "is_float _ = False"

fun is_list :: "pyval \<Rightarrow> bool" where
  "is_list (PList _) = True"
| "is_list _ = False"

fun is_runner :: "pyval \<Rightarrow> bool" where
  "is_runner (PRunner _) = True"
| "is_runner _ = False"

text \<open>
  The payload of a value whose type has been checked. Each function is only applied
  behind the matching \<^verbatim>\<open>isinstance\<close> test; the last equation is never reached there.
\<close>

fun str_of :: "pyval \<Rightarrow> string" where
  "str_of (PStr s) = s"
| "str_of _ = []"

fun int_of :: "pyval \<Rightarrow> int" where
  "int_of (PInt i) = i"
| "int_of (PBool b) = (if b then 1 else 0)"
| "int_of _ = 0"

fun float_of :: "pyval \<Rightarrow> pyfloat" where
  "float_of (PFloat x) = x"
| "float_of _ = NaN"

fun list_of :: "pyval \<Rightarrow> pyval list" where
  "list_of (PList vs) = vs"
| "list_of _ = []"

fun addr_of :: "pyval \<Rightarrow> nat" where
  "addr_of (PRunner a) = a"
| "addr_of _ = 0"

text \<open>
  A \<open>string\<close> holds the characters of a Python string, a character outside ASCII as
  the bytes of its UTF-8 encoding. None of these bytes is the space, so that
  \<^verbatim>\<open>replace(' ', '')\<close> removes the spaces and nothing else.
\<close>

definition replace_spaces :: "string \<Rightarrow> string" where
  "replace_spaces s = filter (\<lambda>c. c \<noteq> CHR '' '') s"

section \<open>Runner\<close>

record runner =
  name :: string
  age :: int
  country :: string
  sprint_speed :: pyfloat
  endurance_speed :: pyfloat
  energy :: int
  max_energy :: int

text \<open>
  \<^verbatim>\<open>Runner.__init__\<close>. The set of valid countries, which the source reads from
  \<^verbatim>\<open>countries.csv\<close> between the two checks, is a parameter (the reading of the file
  is not modelled). So is \<^verbatim>\<open>str.isalnum\<close>:
  it holds of a string that is not empty and whose characters are all letters or digits
  in the Unicode database of the interpreter (an accented letter and a letter or a digit
  of any script are alphanumeric), and this database is not part of the program.
\<close>

definition runner_init ::
  "string set \<Rightarrow> (string \<Rightarrow> bool) \<Rightarrow>
   pyval \<Rightarrow> pyval \<Rightarrow> pyval \<Rightarrow> pyval \<Rightarrow> pyval \<Rightarrow> error + runner" where
  "runner_init valid_countries isalnum nm ag co sp en =
     (if \<not> (is_str nm \<and> is_int ag \<and> is_str co \<and> is_float sp \<and> is_float en)
      then Inl CustomTypeError
      else if \<not> (isalnum (replace_spaces (str_of nm)) \<and>
                  5 \<le> int_of ag \<and> int_of ag \<le> 100 \<and>
                  str_of co \<in> valid_countries \<and>
                  fl_le (Fin (22 / 10)) (float_of sp) \<and> fl_le (float_of sp) (Fin (68 / 10)) \<and>
                  fl_le (Fin (18 / 10)) (float_of en) \<and> fl_le (float_of en) (Fin (54 / 10)))
      then Inl CustomValueError
      else Inr \<lparr>name = str_of nm, age = int_of ag, country = str_of co,
                sprint_speed = float_of sp, endurance_speed = float_of en,
                energy = 1000, max_energy = 1000\<rparr>)"

definition drain_energy :: "runner \<Rightarrow> pyval \<Rightarrow> error + runner" where
  "drain_energy r drain_points =
     (if \<not> is_int drain_points then Inl CustomTypeError
      else if \<not> (1 \<le> int_of drain_points \<and> int_of drain_points \<le> max_energy r)
      then Inl CustomValueError
      else let e = energy r - int_of drain_points
           in Inr (r\<lparr>energy := (if e < 0 then 0 else e)\<rparr>))"

definition recover_energy :: "runner \<Rightarrow> pyval \<Rightarrow> error + runner" where
  "recover_energy r recovery_amount =
     (if \<not> is_int recovery_amount then Inl CustomTypeError
      else if \<not> (1 \<le> int_of recovery_amount \<and> int_of recovery_amount \<le> max_energy r)
      then Inl CustomValueError
      else let e = energy r + int_of recovery_amount
           in Inr (r\<lparr>energy := (if max_energy r < e then max_energy r else e)\<rparr>))"

definition run_race :: "runner \<Rightarrow> pyval \<Rightarrow> pyval \<Rightarrow> error + pyfloat" where
  "run_race r race_type distance =
     (if \<not> is_str race_type then Inl CustomTypeError
      else if \<not> is_float distance then Inl CustomTypeError
      else if str_of race_type \<notin> {''short'', ''long''} then Inl CustomValueError
      else if fl_le (float_of distance) (Fin 0) then Inl CustomValueError
      else let distance_meters = fl_mul (float_of distance) (Fin 1000)
           in case (if str_of race_type = ''short''
                    then fl_div distance_meters (sprint_speed r)
                    else fl_div distance_meters (endurance_speed r)) of
                Inl e \<Rightarrow> Inl e
              | Inr time_taken \<Rightarrow> Inr (py_round2 time_taken))"

section \<open>Race\<close>

text \<open>
  Runner objects live in a heap and are named by their address: a race and a competition
  hold the same objects, and a marathon changes their energy in place. A result pairs a
  runner with a time or with the marker \<^verbatim>\<open>"DNF"\<close>; the integer \<^verbatim>\<open>0\<close> that starts a
  marathon's sum is the float zero.
\<close>

type_synonym heap = "nat \<Rightarrow> runner"

datatype outcome = Time pyfloat | DNF

type_synonym results = "(nat \<times> outcome) list"

record race =
  distance :: pyfloat
  runners :: "nat list"
  race_type :: string
  energy_per_km :: int
  maximum_participants :: nat
  time_multiplier :: pyfloat

definition race_init :: "pyval \<Rightarrow> pyval \<Rightarrow> pyval \<Rightarrow> error + race" where
  "race_init d rs rt =
     (let rs = (if rs = PNone then PList [] else rs)
      in if \<not> (is_float d \<and> is_list rs \<and> is_str rt \<and> list_all is_runner (list_of rs))
         then Inl CustomTypeError
         else if \<not> (fl_lt (Fin 0) (float_of d) \<and> str_of rt \<in> {''short'', ''long''})
         then Inl CustomValueError
         else Inr \<lparr>distance = float_of d,
                   runners = map addr_of (list_of rs),
                   race_type = str_of rt,
                   energy_per_km = 100,
                   maximum_participants = (if str_of rt = ''short'' then 8 else 16),
                   time_multiplier = Fin (12 / 10)\<rparr>)"

definition ShortRace :: "pyval \<Rightarrow> pyval \<Rightarrow> error + race" where
  "ShortRace d rs = race_init d rs (PStr ''short'')"

definition MarathonRace :: "pyval \<Rightarrow> pyval \<Rightarrow> error + race" where
  "MarathonRace d rs = race_init d rs (PStr ''long'')"

definition add_runner :: "race \<Rightarrow> pyval \<Rightarrow> error + race" where
  "add_runner rc v =
     (if \<not> is_runner v then Inl CustomTypeError
      else if maximum_participants rc \<le> length (runners rc) then Inl RaceIsFullError
      else if addr_of v \<in> set (runners rc) then Inl RunnerAlreadyExistsError
      else Inr (rc\<lparr>runners := runners rc @ [addr_of v]\<rparr>))"

definition remove_runner :: "race \<Rightarrow> pyval \<Rightarrow> error + race" where
  "remove_runner rc v =
     (if \<not> is_runner v then Inl CustomTypeError
      else if addr_of v \<notin> set (runners rc) then Inl RunnerDoesntExistError
      else Inr (rc\<lparr>runners := remove1 (addr_of v) (runners rc)\<rparr>))"

text \<open>The loop of the short race: it reads the runners and changes none.\<close>

fun short_loop :: "heap \<Rightarrow> race \<Rightarrow> nat list \<Rightarrow> error + results" where
  "short_loop h rc [] = Inr []"
| "short_loop h rc (a # as) =
     (case run_race (h a) (PStr ''short'') (PFloat (distance rc)) of
        Inl e \<Rightarrow> Inl e
      | Inr t \<Rightarrow>
          (case short_loop h rc as of
             Inl e \<Rightarrow> Inl e
           | Inr res \<Rightarrow> Inr ((a, Time (fl_mul t (time_multiplier rc))) # res)))"

text \<open>
  The kilometres of one runner in a marathon: \<open>n\<close> kilometres are left and \<open>t\<close> is the
  time so far. A runner without energy gets \<^verbatim>\<open>"DNF"\<close> and the loop is left.
\<close>

fun marathon_kms :: "nat \<Rightarrow> runner \<Rightarrow> pyfloat \<Rightarrow> error + runner \<times> outcome" where
  "marathon_kms 0 r t = Inr (r, Time t)"
| "marathon_kms (Suc n) r t =
     (if 0 < energy r
      then case run_race r (PStr ''long'') (PFloat (Fin 1)) of
             Inl e \<Rightarrow> Inl e
           | Inr x \<Rightarrow>
               (case drain_energy r (PInt 100) of
                  Inl e \<Rightarrow> Inl e
                | Inr r' \<Rightarrow> marathon_kms n r' (fl_add t x))
      else Inr (r, DNF))"

text \<open>
  The loop of the marathon. \<^verbatim>\<open>math.ceil(self.distance)\<close> is evaluated for each runner,
  when the runner's range of kilometres is built.
\<close>

fun long_loop :: "heap \<Rightarrow> race \<Rightarrow> nat list \<Rightarrow> error + heap \<times> results" where
  "long_loop h rc [] = Inr (h, [])"
| "long_loop h rc (a # as) =
     (case py_ceil (distance rc) of
        Inl e \<Rightarrow> Inl e
      | Inr k \<Rightarrow>
          (case marathon_kms (nat k) (h a) (Fin 0) of
             Inl e \<Rightarrow> Inl e
           | Inr (r', out) \<Rightarrow>
               (case long_loop (h(a := r')) rc as of
                  Inl e \<Rightarrow> Inl e
                | Inr (h', res) \<Rightarrow> Inr (h', (a, out) # res))))"

definition conduct_race :: "heap \<Rightarrow> race \<Rightarrow> error + heap \<times> results" where
  "conduct_race h rc =
     (if race_type rc = ''short''
      then case short_loop h rc (runners rc) of
             Inl e \<Rightarrow> Inl e
           | Inr res \<Rightarrow> Inr (h, res)
      else if race_type rc = ''long'' then long_loop h rc (runners rc)
      else Inr (h, []))"

section \<open>Competition\<close>

subsection \<open>Ordinal labels\<close>

definition digit_char :: "nat \<Rightarrow> char" where
  "digit_char d = ''0123456789'' ! d"

fun str_nat :: "nat \<Rightarrow> string" where
  "str_nat n = (if n < 10 then [digit_char n] else str_nat (n div 10) @ [digit_char (n mod 10)])"

declare str_nat.simps [simp del]

definition str_int :: "int \<Rightarrow> string" where
  "str_int i = (if i < 0 then CHR ''-'' # str_nat (nat (- i)) else str_nat (nat i))"

text \<open>\<^verbatim>\<open>Competition.__get_ordinal\<close>; \<^verbatim>\<open>%\<close> is the floored remainder, as \<open>mod\<close> on \<open>int\<close>.\<close>

definition suffixes :: "(int \<times> string) list" where
  "suffixes = [(1, ''st''), (2, ''nd''), (3, ''rd'')]"

definition get_ordinal :: "int \<Rightarrow> string" where
  "get_ordinal n =
     (let suffix =
        (if 11 \<le> n mod 100 \<and> n mod 100 \<le> 13 then ''th''
         else case map_of suffixes (n mod 10) of Some s \<Rightarrow> s | None \<Rightarrow> ''th'')
      in str_int n @ suffix)"

subsection \<open>Sorting\<close>

text \<open>
  \<^verbatim>\<open>sorted(xs, key=f)\<close>: a stable sort that only asks whether one key is less than
  another, and passes on the exception of a comparison that raises. On keys that are
  totally preordered every stable sort returns the same list, so the insertion sort
  below stands for the interpreter's. A list of one element is returned without a
  comparison. A NaN among the keys breaks the preorder, and the order of the result may
  then differ from the interpreter's; no race of valid runners has a NaN as a time.
\<close>

fun insert_by :: "('k \<Rightarrow> 'k \<Rightarrow> error + bool) \<Rightarrow> ('a \<Rightarrow> 'k) \<Rightarrow> 'a \<Rightarrow> 'a list \<Rightarrow> error + 'a list" where
  "insert_by lt key x [] = Inr [x]"
| "insert_by lt key x (y # ys) =
     (case lt (key y) (key x) of
        Inl e \<Rightarrow> Inl e
      | Inr b \<Rightarrow>
          if b then (case insert_by lt key x ys of
                       Inl e \<Rightarrow> Inl e
                     | Inr zs \<Rightarrow> Inr (y # zs))
          else Inr (x # y # ys))"

fun py_sorted :: "('k \<Rightarrow> 'k \<Rightarrow> error + bool) \<Rightarrow> ('a \<Rightarrow> 'k) \<Rightarrow> 'a list \<Rightarrow> error + 'a list" where
  "py_sorted lt key [] = Inr []"
| "py_sorted lt key (x # xs) =
     (case py_sorted lt key xs of
        Inl e \<Rightarrow> Inl e
      | Inr ys \<Rightarrow> insert_by lt key x ys)"

text \<open>
  \<^verbatim>\<open><\<close> on the second components of the results: two floats compare as floats, two
  strings as strings (\<^verbatim>\<open>"DNF" < "DNF"\<close> is false), and a float against a string raises
  \<^verbatim>\<open>TypeError\<close>.
\<close>

fun lt_outcome :: "outcome \<Rightarrow> outcome \<Rightarrow> error + bool" where
  "lt_outcome (Time a) (Time b) = Inr (fl_lt a b)"
| "lt_outcome DNF DNF = Inr False"
| "lt_outcome _ _ = Inl TypeError"

definition lt_int :: "int \<Rightarrow> int \<Rightarrow> error + bool" where
  "lt_int a b = Inr (a < b)"

subsection \<open>The leaderboard\<close>

text \<open>
  A \<^verbatim>\<open>dict\<close> keeps its keys in the order of their first insertion: an association list,
  written with \<^const>\<open>AList.update\<close> and read with \<^const>\<open>map_of\<close>.
\<close>

type_synonym leaderboard = "(string \<times> (string \<times> int) option) list"

record competition =
  comp_runners :: "nat list"
  rounds :: int
  distances_short :: "pyfloat list"
  distances_marathon :: "pyfloat list"
  leaderboard :: leaderboard

definition MAX_ROUNDS :: int where
  "MAX_ROUNDS = 3"

definition competition_init :: "pyval \<Rightarrow> pyval \<Rightarrow> pyval \<Rightarrow> pyval \<Rightarrow> error + competition" where
  "competition_init rs rn ds dm =
     (if \<not> (is_list rs \<and> list_all is_runner (list_of rs) \<and>
             is_int rn \<and>
             is_list ds \<and> list_all is_float (list_of ds) \<and>
             is_list dm \<and> list_all is_float (list_of dm))
      then Inl CustomTypeError
      else if \<not> (1 \<le> int_of rn \<and> int_of rn \<le> MAX_ROUNDS \<and>
                  list_all (\<lambda>d. fl_lt (Fin 0) (float_of d)) (list_of ds) \<and>
                  list_all (\<lambda>d. fl_lt (Fin 0) (float_of d)) (list_of dm) \<and>
                  length (list_of ds) = length (list_of dm) \<and>
                  int (length (list_of dm)) = int_of rn)
      then Inl CustomValueError
      else Inr \<lparr>comp_runners = map addr_of (list_of rs),
                rounds = int_of rn,
                distances_short = map float_of (list_of ds),
                distances_marathon = map float_of (list_of dm),
                leaderboard =
                  foldl (\<lambda>lb i. AList.update (get_ordinal (int i)) None lb) []
                    [1 ..< length (list_of rs) + 1]\<rparr>)"

text \<open>
  The dictionary comprehension of \<^verbatim>\<open>update_leaderboard\<close>: \<open>n\<close> is
  \<^verbatim>\<open>len(results)\<close>, and a name that comes again overwrites the score stored under it.
\<close>

definition name2score_of :: "heap \<Rightarrow> nat \<Rightarrow> results \<Rightarrow> (string \<times> int) list" where
  "name2score_of h n sorted_result =
     foldl (\<lambda>d (i, (a, taken_time)).
              AList.update (name (h a)) (if taken_time \<noteq> DNF then int n - int i - 1 else 0) d)
       [] (enumerate 0 sorted_result)"

text \<open>The loop that adds the scores of the leaderboard so far.\<close>

fun add_previous ::
  "leaderboard \<Rightarrow> string list \<Rightarrow> (string \<times> int) list \<Rightarrow> error + (string \<times> int) list" where
  "add_previous lb [] n2s = Inr n2s"
| "add_previous lb (key # keys) n2s =
     (case map_of lb key of
        None \<Rightarrow> Inl KeyError
      | Some None \<Rightarrow> add_previous lb keys n2s
      | Some (Some (nm, score)) \<Rightarrow>
          (case map_of n2s nm of
             None \<Rightarrow> Inl KeyError
           | Some s \<Rightarrow> add_previous lb keys (AList.update nm (s + score) n2s)))"

text \<open>The loop that writes the new ranking into the slots, from the first slot on.\<close>

fun assign_ranks ::
  "string list \<Rightarrow> nat \<Rightarrow> (string \<times> int) list \<Rightarrow> leaderboard \<Rightarrow> error + leaderboard" where
  "assign_ranks keys i [] lb = Inr lb"
| "assign_ranks keys i (name_score # rest) lb =
     (if i < length keys
      then assign_ranks keys (Suc i) rest (AList.update (keys ! i) (Some name_score) lb)
      else Inl IndexError)"

definition update_leaderboard :: "heap \<Rightarrow> leaderboard \<Rightarrow> results \<Rightarrow> error + leaderboard" where
  "update_leaderboard h lb results =
     (case py_sorted lt_outcome snd results of
        Inl e \<Rightarrow> Inl e
      | Inr sorted_result \<Rightarrow>
          (let leaderboard_keys = map fst lb;
               name2score = name2score_of h (length results) sorted_result
           in case add_previous lb leaderboard_keys name2score of
                Inl e \<Rightarrow> Inl e
              | Inr name2score \<Rightarrow>
                  (case py_sorted lt_int (\<lambda>x. - snd x) name2score of
                     Inl e \<Rightarrow> Inl e
                   | Inr sorted_result \<Rightarrow> assign_ranks leaderboard_keys 0 sorted_result lb)))"

subsection \<open>Running the rounds\<close>

definition py_index :: "'a list \<Rightarrow> nat \<Rightarrow> error + 'a" where
  "py_index xs i = (if i < length xs then Inr (xs ! i) else Inl IndexError)"

text \<open>The two races of a round, built over the whole roster of the competition.\<close>

definition round_races :: "competition \<Rightarrow> nat \<Rightarrow> heap \<Rightarrow> error + heap \<times> results \<times> results" where
  "round_races c i h =
     (case py_index (distances_short c) i of
        Inl e \<Rightarrow> Inl e
      | Inr ds \<Rightarrow>
     (case ShortRace (PFloat ds) (PList (map PRunner (comp_runners c))) of
        Inl e \<Rightarrow> Inl e
      | Inr short_race \<Rightarrow>
     (case conduct_race h (short_race\<lparr>runners := comp_runners c\<rparr>) of
        Inl e \<Rightarrow> Inl e
      | Inr (h1, short_result) \<Rightarrow>
     (case py_index (distances_marathon c) i of
        Inl e \<Rightarrow> Inl e
      | Inr dm \<Rightarrow>
     (case MarathonRace (PFloat dm) (PList (map PRunner (comp_runners c))) of
        Inl e \<Rightarrow> Inl e
      | Inr marathon \<Rightarrow>
     (case conduct_race h1 (marathon\<lparr>runners := comp_runners c\<rparr>) of
        Inl e \<Rightarrow> Inl e
      | Inr (h2, marathon_result) \<Rightarrow> Inr (h2, short_result, marathon_result)))))))"

text \<open>The recovery of the runners that did not finish the marathon.\<close>

fun recover_dnf :: "heap \<Rightarrow> results \<Rightarrow> error + heap" where
  "recover_dnf h [] = Inr h"
| "recover_dnf h ((a, taken_time) # rest) =
     (if taken_time = DNF
      then case recover_energy (h a) (PInt 1000) of
             Inl e \<Rightarrow> Inl e
           | Inr r' \<Rightarrow> recover_dnf (h(a := r')) rest
      else recover_dnf h rest)"

text \<open>The body of the loop of \<^verbatim>\<open>conduct_competition\<close>, on the heap and the leaderboard.\<close>

definition conduct_round ::
  "competition \<Rightarrow> nat \<Rightarrow> heap \<Rightarrow> leaderboard \<Rightarrow> error + heap \<times> leaderboard" where
  "conduct_round c i h lb =
     (case round_races c i h of
        Inl e \<Rightarrow> Inl e
      | Inr (h2, short_result, marathon_result) \<Rightarrow>
     (case recover_dnf h2 marathon_result of
        Inl e \<Rightarrow> Inl e
      | Inr h3 \<Rightarrow>
     (case update_leaderboard h3 lb short_result of
        Inl e \<Rightarrow> Inl e
      | Inr lb1 \<Rightarrow>
     (case update_leaderboard h3 lb1 marathon_result of
        Inl e \<Rightarrow> Inl e
      | Inr lb2 \<Rightarrow> Inr (h3, lb2)))))"

text \<open>
  The loop of \<^verbatim>\<open>conduct_competition\<close>. The source sets \<^verbatim>\<open>i = 0\<close> before the loop and
  never changes it, so every round reads the first distance of each list.
\<close>

function comp_loop ::
  "competition \<Rightarrow> int \<Rightarrow> nat \<Rightarrow> heap \<Rightarrow> leaderboard \<Rightarrow> error + heap \<times> leaderboard" where
  "comp_loop c current_round i h lb =
     (if current_round \<le> rounds c
      then case conduct_round c i h lb of
             Inl e \<Rightarrow> Inl e
           | Inr (h', lb') \<Rightarrow> comp_loop c (current_round + 1) i h' lb'
      else Inr (h, lb))"
  by pat_completeness auto
termination
  by (relation "measure (\<lambda>(c, current_round, i, h, lb). nat (rounds c + 1 - current_round))") auto

declare comp_loop.simps [simp del]

definition conduct_competition :: "heap \<Rightarrow> competition \<Rightarrow> error + heap \<times> leaderboard" where
  "conduct_competition h c = comp_loop c 1 0 h (leaderboard c)"

section \<open>Notions used to state the properties\<close>

text \<open>
  A sequence of calls of \<^verbatim>\<open>drain_energy\<close> and \<^verbatim>\<open>recover_energy\<close> on one runner,
  made one after the other; an exception ends the sequence.
\<close>

datatype energy_call = DrainCall pyval | RecoverCall pyval

fun call_arg :: "energy_call \<Rightarrow> pyval" where
  "call_arg (DrainCall v) = v"
| "call_arg (RecoverCall v) = v"

fun apply_calls :: "runner \<Rightarrow> energy_call list \<Rightarrow> error + runner" where
  "apply_calls r [] = Inr r"
| "apply_calls r (DrainCall v # cs) =
     (case drain_energy r v of Inl e \<Rightarrow> Inl e | Inr r' \<Rightarrow> apply_calls r' cs)"
| "apply_calls r (RecoverCall v # cs) =
     (case recover_energy r v of Inl e \<Rightarrow> Inl e | Inr r' \<Rightarrow> apply_calls r' cs)"

text \<open>The invariant of the energy, with the maximum that the constructor sets.\<close>

definition energy_ok :: "runner \<Rightarrow> bool" where
  "energy_ok r = (0 \<le> energy r \<and> energy r \<le> max_energy r \<and> max_energy r = 1000)"

text \<open>An argument that both methods accept: an integer between 1 and 1000.\<close>

definition valid_amount :: "pyval \<Rightarrow> bool" where
  "valid_amount v = (is_int v \<and> 1 \<le> int_of v \<and> int_of v \<le> 1000)"

text \<open>A float inside a closed interval with finite bounds: it is finite and between them.\<close>

fun in_range :: "real \<Rightarrow> real \<Rightarrow> pyfloat \<Rightarrow> bool" where
  "in_range lo hi (Fin x) = (lo \<le> x \<and> x \<le> hi)"
| "in_range lo hi _ = False"

text \<open>
  \<^verbatim>\<open>str.isalnum\<close> on the strings of ASCII characters, where it needs no database: the
  string is not empty and every character is a digit, a capital or a small letter. On
  any other string the predicate below is false and says nothing of \<^verbatim>\<open>str.isalnum\<close>.
\<close>

definition ascii_alnum :: "char \<Rightarrow> bool" where
  "ascii_alnum c =
     (let n = of_char c :: nat
      in (48 \<le> n \<and> n \<le> 57) \<or> (65 \<le> n \<and> n \<le> 90) \<or> (97 \<le> n \<and> n \<le> 122))"

definition isalnum_ascii :: "string \<Rightarrow> bool" where
  "isalnum_ascii s = (s \<noteq> [] \<and> list_all ascii_alnum s)"

text \<open>
  The runners of the example at the end of \<^verbatim>\<open>race.py\<close>, as their constructor builds
  them, and a heap that holds them at the addresses 0 and 1.
\<close>

definition elijah :: runner where
  "elijah = \<lparr>name = ''Elijah'', age = 18, country = ''Australia'',
             sprint_speed = Fin (58 / 10), endurance_speed = Fin (44 / 10),
             energy = 1000, max_energy = 1000\<rparr>"

definition rupert :: runner where
  "rupert = \<lparr>name = ''Rupert'', age = 23, country = ''Australia'',
             sprint_speed = Fin (23 / 10), endurance_speed = Fin (19 / 10),
             energy = 1000, max_energy = 1000\<rparr>"

definition example_heap :: heap where
  "example_heap = (\<lambda>a. elijah)(1 := rupert)"

text \<open>
  What the constructor and the two energy methods keep true of a runner: both speeds are
  finite and in their intervals, and the energy is between 0 and the maximum of 1000.
\<close>

definition valid_runner :: "runner \<Rightarrow> bool" where
  "valid_runner r =
     (in_range (22 / 10) (68 / 10) (sprint_speed r) \<and>
      in_range (18 / 10) (54 / 10) (endurance_speed r) \<and>
      energy_ok r)"

text \<open>A heap in which every runner object is such a runner.\<close>

definition valid_heap :: "heap \<Rightarrow> bool" where
  "valid_heap h = (\<forall>a. valid_runner (h a))"

text \<open>
  The time of one kilometre of a marathon, \<^verbatim>\<open>run_race("long", 1.0)\<close>, for a runner with a
  finite endurance speed, and the sum the loop builds from it over \<open>n\<close> kilometres.
\<close>

definition km_time :: "runner \<Rightarrow> pyfloat" where
  "km_time r = (case endurance_speed r of
      Fin e \<Rightarrow> Fin (of_int (round_half_even (1000 / e * 100)) / 100) | x \<Rightarrow> NaN)"

primrec sum_kms :: "pyfloat \<Rightarrow> nat \<Rightarrow> pyfloat \<Rightarrow> pyfloat" where
  "sum_kms x 0 t = t"
| "sum_kms x (Suc n) t = sum_kms x n (fl_add t x)"

text \<open>
  What a marathon of \<open>k\<close> kilometres does to one runner: the energy is tested before
  each kilometre, so the runner finishes exactly when \<open>k\<close> is 0 or the energy at the
  start is above \<open>100 * (k - 1)\<close>; in both cases the energy goes down by 100 for each
  kilometre run and stops at 0.
\<close>

definition marathon_outcome :: "nat \<Rightarrow> runner \<Rightarrow> outcome" where
  "marathon_outcome k r =
     (if k = 0 \<or> 100 * (int k - 1) < energy r
      then Time (sum_kms (km_time r) k (Fin 0)) else DNF)"

definition drained :: "nat \<Rightarrow> runner \<Rightarrow> runner" where
  "drained k r = r\<lparr>energy := max 0 (energy r - 100 * int k)\<rparr>"

text \<open>
  The marathon over a roster, each runner with the energy the heap holds when the
  runner's turn comes (a runner that is twice in the roster runs twice).
\<close>

fun marathon_run :: "nat \<Rightarrow> heap \<Rightarrow> nat list \<Rightarrow> heap \<times> results" where
  "marathon_run k h [] = (h, [])"
| "marathon_run k h (a # as) =
     (fst (marathon_run k (h(a := drained k (h a))) as),
      (a, marathon_outcome k (h a)) # snd (marathon_run k (h(a := drained k (h a))) as))"

text \<open>A finite float.\<close>

fun is_fin :: "pyfloat \<Rightarrow> bool" where
  "is_fin (Fin x) = True"
| "is_fin _ = False"

text \<open>
  The entry of runner \<open>a\<close> in the results of a short race: the runner, with the time
  \<^verbatim>\<open>run_race("short", distance) * 1.2\<close>, where \<^verbatim>\<open>run_race\<close> returns
  \<^verbatim>\<open>round(distance * 1000 / sprint_speed, 2)\<close>. The time is a float and not a NaN, and
  it is the infinity for an infinite distance.
\<close>

definition short_entry :: "heap \<Rightarrow> race \<Rightarrow> nat \<Rightarrow> nat \<times> outcome \<Rightarrow> bool" where
  "short_entry h rc a p =
     (fst p = a \<and>
      (\<exists>t q. run_race (h a) (PStr ''short'') (PFloat (distance rc)) = Inr t \<and>
             fl_div (fl_mul (distance rc) (Fin 1000)) (sprint_speed (h a)) = Inr q \<and>
             t = py_round2 q \<and>
             snd p = Time (fl_mul t (Fin (12 / 10))) \<and>
             fl_mul t (Fin (12 / 10)) \<noteq> NaN \<and>
             (distance rc = PosInf \<longrightarrow> fl_mul t (Fin (12 / 10)) = PosInf)))"

text \<open>
  A competition of one round over the two example runners whose marathon of 11
  kilometres nobody finishes.
\<close>

definition dnf_competition :: competition where
  "dnf_competition =
     \<lparr>comp_runners = [0, 1], rounds = 1, distances_short = [Fin 1],
      distances_marathon = [Fin 11],
      leaderboard = [(''1st'', None), (''2nd'', None)]\<rparr>"

text \<open>
  Two results with times, the first time at most the second: the order in which the
  sort has to leave the runners that finished.
\<close>

definition finishes_before :: "nat \<times> outcome \<Rightarrow> nat \<times> outcome \<Rightarrow> bool" where
  "finishes_before p q = (case (snd p, snd q) of (Time a, Time b) \<Rightarrow> fl_le a b | _ \<Rightarrow> False)"

text \<open>The score of the result at position \<open>i\<close> of the sorted list of \<open>n\<close> results.\<close>

definition rank_score :: "nat \<Rightarrow> nat \<Rightarrow> outcome \<Rightarrow> int" where
  "rank_score n i taken_time = (if taken_time \<noteq> DNF then int n - int i - 1 else 0)"

text \<open>The result of a runner that finished: a time, and not a NaN.\<close>

definition finished :: "nat \<times> outcome \<Rightarrow> bool" where
  "finished p = (snd p \<noteq> DNF \<and> snd p \<noteq> Time NaN)"

text \<open>
  A heap in which the runner objects have the same name: runners built by the
  constructor from the same arguments.
\<close>

definition twin_heap :: heap where
  "twin_heap = (\<lambda>a. elijah)"

text \<open>
  The suffix of the English ordinal of a natural number: \<open>th\<close> after 11, 12 and 13 in
  the last two digits, else \<open>st\<close>, \<open>nd\<close>, \<open>rd\<close> after a last digit 1, 2, 3, else
  \<open>th\<close>.
\<close>

definition ordinal_suffix :: "nat \<Rightarrow> string" where
  "ordinal_suffix n =
     (if n mod 100 \<in> {11, 12, 13} then ''th''
      else if n mod 10 = 1 then ''st''
      else if n mod 10 = 2 then ''nd''
      else if n mod 10 = 3 then ''rd''
      else ''th'')"

text \<open>
  A leaderboard that ranks the runners of the given names: every slot holds a name and a
  score, the names of the slots are the given names, each as often as it is given, and
  the scores do not increase from one slot to the next.
\<close>

definition full_board :: "string list \<Rightarrow> leaderboard \<Rightarrow> bool" where
  "full_board names lb =
     (list_all (\<lambda>v. v \<noteq> None) (map snd lb) \<and>
      mset (map (\<lambda>v. fst (the v)) (map snd lb)) = mset names \<and>
      sorted_wrt (\<lambda>v w. snd (the w) \<le> snd (the v)) (map snd lb))"

text \<open>
  The competition of the end-to-end scenario: two runners, one round, a short race of
  one kilometre and a marathon of two.
\<close>

definition example_competition :: competition where
  "example_competition =
     \<lparr>comp_runners = [0, 1], rounds = 1, distances_short = [Fin 1],
      distances_marathon = [Fin 2],
      leaderboard = [(''1st'', None), (''2nd'', None)]\<rparr>"

text \<open>
  The score that a leaderboard holds for a name: the sum of the scores of the slots that
  hold the name (one slot at most when the names are distinct, and 0 when there is none).
\<close>

definition slot_score :: "string \<Rightarrow> (string \<times> int) option \<Rightarrow> int" where
  "slot_score nm v = (case v of Some (nm', score) \<Rightarrow> if nm' = nm then score else 0 | None \<Rightarrow> 0)"

definition board_score :: "leaderboard \<Rightarrow> string \<Rightarrow> int" where
  "board_score lb nm = sum_list (map (\<lambda>p. slot_score nm (snd p)) lb)"

text \<open>
  The score of a name in one race: what the dictionary comprehension of
  \<^verbatim>\<open>update_leaderboard\<close> stores for it, 0 when the race does not give the name a score.
\<close>

definition race_score :: "heap \<Rightarrow> results \<Rightarrow> string \<Rightarrow> int" where
  "race_score h results nm =
     (case py_sorted lt_outcome snd results of
        Inl e \<Rightarrow> 0
      | Inr sorted_result \<Rightarrow>
          (case map_of (name2score_of h (length results) sorted_result) nm of
             Some s \<Rightarrow> s
           | None \<Rightarrow> 0))"

text \<open>
  The cumulative score of a name from round \<open>n\<close> on: the sum of its scores in the short
  race and in the marathon of every round, each round run on the heap that the round
  before has left.
\<close>

function total_points :: "competition \<Rightarrow> int \<Rightarrow> nat \<Rightarrow> heap \<Rightarrow> string \<Rightarrow> int" where
  "total_points c n i h nm =
     (if n \<le> rounds c
      then case round_races c i h of
             Inl e \<Rightarrow> 0
           | Inr (h2, short_result, marathon_result) \<Rightarrow>
               (case recover_dnf h2 marathon_result of
                  Inl e \<Rightarrow> 0
                | Inr h3 \<Rightarrow>
                    race_score h3 short_result nm + race_score h3 marathon_result nm +
                    total_points c (n + 1) i h3 nm)
      else 0)"
  by pat_completeness auto
termination
  by (relation "measure (\<lambda>(c, n, i, h, nm). nat (rounds c + 1 - n))") auto

declare total_points.simps [simp del]

section \<open>Properties of the runner\<close>

lemma drain_energy_clamps:
  "max_energy r = 1000 \<Longrightarrow> valid_amount v \<Longrightarrow>
   drain_energy r v = Inr (r\<lparr>energy := max 0 (energy r - int_of v)\<rparr>)"
  by (simp add: drain_energy_def valid_amount_def Let_def max_def)

lemma recover_energy_clamps:
  "max_energy r = 1000 \<Longrightarrow> valid_amount v \<Longrightarrow>
   recover_energy r v = Inr (r\<lparr>energy := min 1000 (energy r + int_of v)\<rparr>)"
  by (simp add: recover_energy_def valid_amount_def Let_def min_def)

lemma apply_calls_energy_ok:
  "energy_ok r \<Longrightarrow> list_all (\<lambda>c. valid_amount (call_arg c)) cs \<Longrightarrow>
   \<exists>r'. apply_calls r cs = Inr r' \<and> energy_ok r'"
proof (induction cs arbitrary: r)
  case Nil
  then show ?case by simp
next
  case (Cons c cs)
  from Cons.prems have m: "max_energy r = 1000" and v: "valid_amount (call_arg c)"
    and rest: "list_all (\<lambda>c. valid_amount (call_arg c)) cs"
    by (simp_all add: energy_ok_def)
  show ?case
  proof (cases c)
    case (DrainCall v')
    with v have v': "valid_amount v'" by simp
    have ok: "energy_ok (r\<lparr>energy := max 0 (energy r - int_of v')\<rparr>)"
      using Cons.prems(1) v' by (simp add: energy_ok_def valid_amount_def)
    from Cons.IH [OF ok rest] show ?thesis
      by (simp add: DrainCall drain_energy_clamps [OF m v'])
  next
    case (RecoverCall v')
    with v have v': "valid_amount v'" by simp
    have ok: "energy_ok (r\<lparr>energy := min 1000 (energy r + int_of v')\<rparr>)"
      using Cons.prems(1) v' by (simp add: energy_ok_def valid_amount_def)
    from Cons.IH [OF ok rest] show ?thesis
      by (simp add: RecoverCall recover_energy_clamps [OF m v'])
  qed
qed

text \<open>
  Claim C8. Take a runner whose energy is between 0 and its maximum of 1000, and any
  sequence of calls of \<^verbatim>\<open>drain_energy\<close> and \<^verbatim>\<open>recover_energy\<close> whose arguments are
  integers between 1 and 1000. No call raises, and after every prefix of the sequence
  the energy is between 0 and the maximum. A single \<^verbatim>\<open>drain_energy\<close> subtracts and
  stops at 0, a single \<^verbatim>\<open>recover_energy\<close> adds and stops at the maximum.
\<close>

theorem energy_stays_in_range:
  assumes "energy_ok r" and "list_all (\<lambda>c. valid_amount (call_arg c)) cs"
  shows "(\<forall>k \<le> length cs. \<exists>r'. apply_calls r (take k cs) = Inr r' \<and>
            0 \<le> energy r' \<and> energy r' \<le> max_energy r' \<and> max_energy r' = 1000) \<and>
         (\<forall>v. valid_amount v \<longrightarrow>
            drain_energy r v = Inr (r\<lparr>energy := max 0 (energy r - int_of v)\<rparr>) \<and>
            recover_energy r v = Inr (r\<lparr>energy := min (max_energy r) (energy r + int_of v)\<rparr>))"
proof (intro conjI allI impI)
  fix k
  from assms(2) have "list_all (\<lambda>c. valid_amount (call_arg c)) (take k cs)"
    by (auto simp: list_all_iff dest: in_set_takeD)
  from apply_calls_energy_ok [OF assms(1) this]
  show "\<exists>r'. apply_calls r (take k cs) = Inr r' \<and>
          0 \<le> energy r' \<and> energy r' \<le> max_energy r' \<and> max_energy r' = 1000"
    by (auto simp: energy_ok_def)
next
  fix v
  assume v: "valid_amount v"
  from assms(1) have m: "max_energy r = 1000" by (simp add: energy_ok_def)
  show "drain_energy r v = Inr (r\<lparr>energy := max 0 (energy r - int_of v)\<rparr>)"
    by (rule drain_energy_clamps [OF m v])
  show "recover_energy r v = Inr (r\<lparr>energy := min (max_energy r) (energy r + int_of v)\<rparr>)"
    using recover_energy_clamps [OF m v] m by simp
qed

theorem energy_stays_in_range_witness:
  "energy_ok elijah \<and>
   list_all (\<lambda>c. valid_amount (call_arg c)) [DrainCall (PInt 300), RecoverCall (PInt 100)] \<and>
   (\<exists>r'. apply_calls elijah [DrainCall (PInt 300), RecoverCall (PInt 100)] = Inr r' \<and>
         0 \<le> energy r' \<and> energy r' \<le> max_energy r' \<and> max_energy r' = 1000) \<and>
   drain_energy elijah (PInt 300) = Inr (elijah\<lparr>energy := max 0 (energy elijah - 300)\<rparr>)"
proof -
  have h1: "energy_ok elijah"
    by (simp add: energy_ok_def elijah_def)
  have h2: "list_all (\<lambda>c. valid_amount (call_arg c)) [DrainCall (PInt 300), RecoverCall (PInt 100)]"
    by (simp add: valid_amount_def)
  have h3: "valid_amount (PInt 300)"
    by (simp add: valid_amount_def)
  note t = energy_stays_in_range [OF h1 h2]
  from t have "\<exists>r'. apply_calls elijah (take 2 [DrainCall (PInt 300), RecoverCall (PInt 100)]) = Inr r' \<and>
         0 \<le> energy r' \<and> energy r' \<le> max_energy r' \<and> max_energy r' = 1000"
    by (elim conjE allE [of _ 2]) simp
  moreover from t h3
  have "drain_energy elijah (PInt 300) = Inr (elijah\<lparr>energy := max 0 (energy elijah - 300)\<rparr>)"
    by fastforce
  ultimately show ?thesis using h1 h2 by simp
qed

lemma fl_le_in_range:
  "(fl_le (Fin lo) x \<and> fl_le x (Fin hi)) = in_range lo hi x"
  by (cases x) auto

text \<open>
  Claim C9. The constructor of a runner fails with the type error exactly when an
  argument is not of its type (a string, an integer, a string, a float, a float). When
  the types are right it fails with the value error exactly when the name without its
  spaces is not alphanumeric, as \<^verbatim>\<open>str.isalnum\<close> decides it, the age is below 5 or
  above 100, the country is not in the set of valid countries, the sprint speed is not
  in [2.2, 6.8] or the endurance speed is not in [1.8, 5.4]. It fails in no other way.
  When it succeeds, the runner has the five fields as given and an energy equal to the
  maximum, 1000; a failure returns no runner at all. This holds whatever the set of the
  countries and whatever the strings that \<^verbatim>\<open>str.isalnum\<close> accepts.
\<close>

theorem runner_init_outcomes:
  "(runner_init vc isalnum nm ag co sp en = Inl CustomTypeError \<longleftrightarrow>
      \<not> (is_str nm \<and> is_int ag \<and> is_str co \<and> is_float sp \<and> is_float en)) \<and>
   (is_str nm \<and> is_int ag \<and> is_str co \<and> is_float sp \<and> is_float en \<longrightarrow>
      (runner_init vc isalnum nm ag co sp en = Inl CustomValueError \<longleftrightarrow>
         \<not> isalnum (replace_spaces (str_of nm)) \<or>
         int_of ag < 5 \<or> 100 < int_of ag \<or>
         str_of co \<notin> vc \<or>
         \<not> in_range (22 / 10) (68 / 10) (float_of sp) \<or>
         \<not> in_range (18 / 10) (54 / 10) (float_of en))) \<and>
   (\<forall>e. runner_init vc isalnum nm ag co sp en = Inl e \<longrightarrow>
      e = CustomTypeError \<or> e = CustomValueError) \<and>
   (\<forall>r. runner_init vc isalnum nm ag co sp en = Inr r \<longrightarrow>
      r = \<lparr>name = str_of nm, age = int_of ag, country = str_of co,
           sprint_speed = float_of sp, endurance_speed = float_of en,
           energy = 1000, max_energy = 1000\<rparr> \<and>
      energy r = max_energy r)"
  unfolding runner_init_def fl_le_in_range [symmetric]
  by (auto split: if_splits)

theorem runner_init_outcomes_witness:
  "runner_init {''Australia''} isalnum_ascii (PStr ''Elijah'') (PInt 18) (PStr ''Australia'')
     (PFloat (Fin (58 / 10))) (PFloat (Fin (44 / 10))) = Inr elijah \<and>
   runner_init {''Australia''} isalnum_ascii (PStr ''Elijah'') (PInt 18) (PStr ''Australia'')
     (PInt 5) (PFloat (Fin (44 / 10))) = Inl CustomTypeError \<and>
   runner_init {''Australia''} isalnum_ascii (PStr ''Elijah-123'') (PInt 25) (PStr ''Australia'')
     (PFloat (Fin (65 / 10))) (PFloat (Fin 4)) = Inl CustomValueError \<and>
   runner_init {''Australia''} isalnum_ascii (PStr ''Elijah 2'') (PInt 18) (PStr ''Australia'')
     (PFloat (Fin (58 / 10))) (PFloat (Fin (44 / 10))) = Inr (elijah\<lparr>name := ''Elijah 2''\<rparr>)"
proof -
  have a: "runner_init {''Australia''} isalnum_ascii (PStr ''Elijah'') (PInt 18)
     (PStr ''Australia'') (PFloat (Fin (58 / 10))) (PFloat (Fin (44 / 10))) = Inr elijah"
    by (simp add: runner_init_def isalnum_ascii_def replace_spaces_def ascii_alnum_def elijah_def)
  have b: "runner_init {''Australia''} isalnum_ascii (PStr ''Elijah'') (PInt 18)
     (PStr ''Australia'') (PInt 5) (PFloat (Fin (44 / 10))) = Inl CustomTypeError"
    using runner_init_outcomes [of "{''Australia''}" isalnum_ascii "PStr ''Elijah''" "PInt 18"
        "PStr ''Australia''" "PInt 5" "PFloat (Fin (44 / 10))"]
    by simp
  have c: "runner_init {''Australia''} isalnum_ascii (PStr ''Elijah-123'') (PInt 25)
     (PStr ''Australia'') (PFloat (Fin (65 / 10))) (PFloat (Fin 4)) = Inl CustomValueError"
    using runner_init_outcomes [of "{''Australia''}" isalnum_ascii "PStr ''Elijah-123''" "PInt 25"
        "PStr ''Australia''" "PFloat (Fin (65 / 10))" "PFloat (Fin 4)"]
    by (simp add: isalnum_ascii_def replace_spaces_def ascii_alnum_def)
  have d: "runner_init {''Australia''} isalnum_ascii (PStr ''Elijah 2'') (PInt 18)
     (PStr ''Australia'') (PFloat (Fin (58 / 10))) (PFloat (Fin (44 / 10))) =
     Inr (elijah\<lparr>name := ''Elijah 2''\<rparr>)"
    by (simp add: runner_init_def isalnum_ascii_def replace_spaces_def ascii_alnum_def elijah_def)
  from a b c d show ?thesis by simp
qed

section \<open>Properties of the race\<close>

lemma in_range_FinE:
  assumes "in_range lo hi x"
  obtains v where "x = Fin v" "lo \<le> v" "v \<le> hi"
  using assms by (cases x) auto

lemma runner_init_valid:
  "runner_init vc isalnum nm ag co sp en = Inr r \<Longrightarrow> valid_runner r"
  unfolding runner_init_def valid_runner_def energy_ok_def fl_le_in_range [symmetric]
  by (auto split: if_splits)

lemma run_race_long_valid:
  assumes "valid_runner r"
  shows "run_race r (PStr ''long'') (PFloat (Fin 1)) = Inr (km_time r)"
proof -
  from assms obtain e where "endurance_speed r = Fin e" "18 / 10 \<le> e"
    unfolding valid_runner_def by (auto elim: in_range_FinE)
  then show ?thesis
    by (simp add: run_race_def km_time_def)
qed

lemma drain_100_valid:
  assumes "valid_runner r"
  shows "drain_energy r (PInt 100) = Inr (r\<lparr>energy := max 0 (energy r - 100)\<rparr>)"
    and "valid_runner (r\<lparr>energy := max 0 (energy r - 100)\<rparr>)"
  using assms
  by (auto simp: drain_energy_def valid_runner_def energy_ok_def Let_def max_def)

lemma km_time_energy_upd [simp]: "km_time (r\<lparr>energy := e\<rparr>) = km_time r"
  by (simp add: km_time_def)

lemma marathon_kms_valid:
  assumes "valid_runner r"
  shows "marathon_kms n r t =
     (if n = 0 \<or> 100 * (int n - 1) < energy r
      then Inr (r\<lparr>energy := max 0 (energy r - 100 * int n)\<rparr>,
                Time (sum_kms (km_time r) n t))
      else Inr (r\<lparr>energy := 0\<rparr>, DNF))"
  using assms
proof (induction n arbitrary: r t)
  case 0
  then show ?case by (simp add: valid_runner_def energy_ok_def max_def)
next
  case (Suc n)
  let ?r' = "r\<lparr>energy := max 0 (energy r - 100)\<rparr>"
  from Suc.prems have e0: "0 \<le> energy r"
    by (simp add: valid_runner_def energy_ok_def)
  show ?case
  proof (cases "0 < energy r")
    case True
    have step: "marathon_kms (Suc n) r t = marathon_kms n ?r' (fl_add t (km_time r))"
      using True
      by (simp add: run_race_long_valid [OF Suc.prems] drain_100_valid(1) [OF Suc.prems])
    have en: "energy ?r' = max 0 (energy r - 100)" by simp
    have upd: "?r'\<lparr>energy := v\<rparr> = r\<lparr>energy := v\<rparr>" for v by simp
    show ?thesis
      unfolding step Suc.IH [OF drain_100_valid(2) [OF Suc.prems]] en upd km_time_energy_upd
      using True by (auto simp: max_def)
  next
    case False
    with e0 have "energy r = 0" by simp
    then show ?thesis by simp
  qed
qed

lemma energy_upd_self: "\<exists>e. r = r\<lparr>energy := e\<rparr>"
  by (rule exI [of _ "energy r"]) simp

lemma marathon_kms_outcome:
  assumes "valid_runner r"
  shows "marathon_kms k r (Fin 0) = Inr (drained k r, marathon_outcome k r)"
proof -
  have "\<not> (k = 0 \<or> 100 * (int k - 1) < energy r) \<Longrightarrow> max 0 (energy r - 100 * int k) = 0"
    by auto
  then show ?thesis
    by (auto simp: marathon_kms_valid [OF assms] drained_def marathon_outcome_def)
qed

lemma drained_valid: "valid_runner r \<Longrightarrow> valid_runner (drained k r)"
  by (auto simp: valid_runner_def energy_ok_def drained_def)

lemma valid_heap_upd: "valid_heap h \<Longrightarrow> valid_runner r \<Longrightarrow> valid_heap (h(a := r))"
  by (simp add: valid_heap_def)

lemma long_loop_finite:
  assumes "distance rc = Fin d"
  shows "valid_heap h \<Longrightarrow> long_loop h rc as = Inr (marathon_run (nat \<lceil>d\<rceil>) h as)"
proof (induction as arbitrary: h)
  case Nil
  then show ?case by simp
next
  case (Cons a as)
  from Cons.prems have va: "valid_runner (h a)" by (simp add: valid_heap_def)
  have vh: "valid_heap (h(a := drained (nat \<lceil>d\<rceil>) (h a)))"
    by (rule valid_heap_upd [OF Cons.prems drained_valid [OF va]])
  show ?case
    unfolding long_loop.simps marathon_run.simps assms py_ceil.simps sum.case
      marathon_kms_outcome [OF va] prod.case Cons.IH [OF vh]
    by (simp add: case_prod_beta)
qed

lemma marathon_run_props:
  "marathon_run k h as = (h', res) \<Longrightarrow>
     map fst res = as \<and>
     (valid_heap h \<longrightarrow> valid_heap h') \<and>
     (\<forall>a. \<exists>e. h' a = (h a)\<lparr>energy := e\<rparr>) \<and>
     (\<forall>a. a \<notin> set as \<longrightarrow> h' a = h a)"
proof (induction as arbitrary: h h' res)
  case Nil
  then show ?case by (auto intro: energy_upd_self)
next
  case (Cons a as)
  obtain h1 res1 where r1: "marathon_run k (h(a := drained k (h a))) as = (h1, res1)"
    by (cases "marathon_run k (h(a := drained k (h a))) as")
  with Cons.prems have eq: "h' = h1" "res = (a, marathon_outcome k (h a)) # res1"
    by auto
  note IH = Cons.IH [OF r1]
  have "\<exists>e. h1 b = (h b)\<lparr>energy := e\<rparr>" for b
  proof -
    from IH obtain e where "h1 b = ((h(a := drained k (h a))) b)\<lparr>energy := e\<rparr>" by blast
    then show ?thesis by (cases "b = a") (auto simp: drained_def)
  qed
  moreover have "valid_heap h \<longrightarrow> valid_heap h1"
  proof
    assume v: "valid_heap h"
    then have "valid_runner (h a)" by (simp add: valid_heap_def)
    from valid_heap_upd [OF v drained_valid [OF this]] IH show "valid_heap h1" by blast
  qed
  moreover have "\<forall>b. b \<notin> set (a # as) \<longrightarrow> h1 b = h b"
    using IH by auto
  ultimately show ?case using IH eq by simp
qed

lemma marathon_run_distinct:
  "distinct as \<Longrightarrow>
   marathon_run k h as =
     (\<lambda>a. if a \<in> set as then drained k (h a) else h a,
      map (\<lambda>a. (a, marathon_outcome k (h a))) as)"
proof (induction as arbitrary: h)
  case Nil
  then show ?case by simp
next
  case (Cons a as)
  then have "a \<notin> set as" "distinct as" by simp_all
  then show ?case
    by (auto simp: Cons.IH fun_eq_iff)
qed

lemma long_loop_props:
  "valid_heap h \<Longrightarrow> long_loop h rc as = Inr (h', res) \<Longrightarrow>
     map fst res = as \<and> valid_heap h' \<and> (\<forall>a. \<exists>e. h' a = (h a)\<lparr>energy := e\<rparr>)"
proof (cases "as = []")
  case True
  assume "valid_heap h" "long_loop h rc as = Inr (h', res)"
  with True show ?thesis by (auto intro: energy_upd_self)
next
  case False
  assume v: "valid_heap h" and l: "long_loop h rc as = Inr (h', res)"
  from False obtain a as' where as: "as = a # as'" by (cases as) auto
  from l obtain k where "py_ceil (distance rc) = Inr k"
    unfolding as by (auto split: sum.splits)
  then obtain d where d: "distance rc = Fin d"
    by (cases "distance rc") auto
  from l long_loop_finite [OF d v] have "marathon_run (nat \<lceil>d\<rceil>) h as = (h', res)"
    by simp
  from marathon_run_props [OF this] v show ?thesis by simp
qed

lemma run_race_short_valid:
  assumes "valid_runner r" and "fl_lt (Fin 0) d"
  shows "\<exists>q. fl_div (fl_mul d (Fin 1000)) (sprint_speed r) = Inr q \<and>
             run_race r (PStr ''short'') (PFloat d) = Inr (py_round2 q) \<and>
             py_round2 q \<noteq> NaN \<and>
             (d = PosInf \<longrightarrow> py_round2 q = PosInf)"
proof -
  from assms(1) obtain s where s: "sprint_speed r = Fin s" "22 / 10 \<le> s"
    unfolding valid_runner_def by (auto elim: in_range_FinE)
  from assms(2) s show ?thesis
    by (cases d) (auto simp: run_race_def)
qed

lemma short_loop_valid:
  assumes "valid_heap h" and "fl_lt (Fin 0) (distance rc)" and "time_multiplier rc = Fin (12 / 10)"
  shows "\<exists>res. short_loop h rc as = Inr res \<and> list_all2 (short_entry h rc) as res"
proof (induction as)
  case Nil
  then show ?case by simp
next
  case (Cons a as)
  then obtain res where res: "short_loop h rc as = Inr res" "list_all2 (short_entry h rc) as res"
    by blast
  from assms(1) have "valid_runner (h a)" by (simp add: valid_heap_def)
  from run_race_short_valid [OF this assms(2)] obtain q where
    q: "fl_div (fl_mul (distance rc) (Fin 1000)) (sprint_speed (h a)) = Inr q"
       "run_race (h a) (PStr ''short'') (PFloat (distance rc)) = Inr (py_round2 q)"
       "py_round2 q \<noteq> NaN"
       "distance rc = PosInf \<longrightarrow> py_round2 q = PosInf"
    by blast
  have "short_entry h rc a (a, Time (fl_mul (py_round2 q) (Fin (12 / 10))))"
    unfolding short_entry_def using q by (cases "py_round2 q") auto
  with res q(2) assms(3) show ?case by simp
qed

text \<open>
  For every short race with a positive distance over a heap of valid runners,
  \<^verbatim>\<open>conduct_race\<close> returns one entry for each member of the roster, in the order of the
  roster, with the time \<^verbatim>\<open>run_race("short", distance) * 1.2\<close>, that is
  \<^verbatim>\<open>round(distance * 1000 / sprint_speed, 2) * 1.2\<close>. The time is a float, never
  \<^verbatim>\<open>"DNF"\<close> and never a NaN, and it is the infinity when the distance is. The heap is
  returned as it was: no energy changes.
\<close>

lemma short_race_times:
  assumes "valid_heap h" and "race_type rc = ''short''"
    and "fl_lt (Fin 0) (distance rc)" and "time_multiplier rc = Fin (12 / 10)"
  shows "\<exists>res. conduct_race h rc = Inr (h, res) \<and>
           length res = length (runners rc) \<and>
           (\<forall>i < length res. short_entry h rc (runners rc ! i) (res ! i))"
proof -
  from short_loop_valid [OF assms(1,3,4)] obtain res where
    "short_loop h rc (runners rc) = Inr res" "list_all2 (short_entry h rc) (runners rc) res"
    by blast
  then show ?thesis
    by (auto simp: conduct_race_def assms(2) list_all2_conv_all_nth)
qed

lemma short_loop_fst:
  "short_loop h rc as = Inr res \<Longrightarrow> map fst res = as"
  by (induction as arbitrary: res) (auto split: sum.splits)

lemma conduct_race_props:
  assumes "valid_heap h" and "conduct_race h rc = Inr (h', res)"
  shows "(race_type rc = ''short'' \<or> race_type rc = ''long'' \<longrightarrow> map fst res = runners rc) \<and>
         valid_heap h' \<and> (\<forall>a. \<exists>e. h' a = (h a)\<lparr>energy := e\<rparr>) \<and>
         (race_type rc = ''short'' \<longrightarrow> h' = h)"
proof (cases "race_type rc = ''short''")
  case True
  with assms show ?thesis
    by (auto simp: conduct_race_def split: sum.splits dest: short_loop_fst intro: energy_upd_self)
next
  case False
  show ?thesis
  proof (cases "race_type rc = ''long''")
    case True
    with assms False have "long_loop h rc (runners rc) = Inr (h', res)"
      by (simp add: conduct_race_def)
    from long_loop_props [OF assms(1) this] False show ?thesis by simp
  next
    case nl: False
    with assms False show ?thesis
      by (auto simp: conduct_race_def intro: energy_upd_self)
  qed
qed

lemma recover_1000_valid:
  assumes "valid_runner r"
  shows "recover_energy r (PInt 1000) = Inr (r\<lparr>energy := 1000\<rparr>)"
  using assms by (auto simp: recover_energy_def valid_runner_def energy_ok_def Let_def)

lemma recover_dnf_valid:
  "valid_heap h \<Longrightarrow>
   recover_dnf h res =
     Inr (\<lambda>a. if (a, DNF) \<in> set res then (h a)\<lparr>energy := 1000\<rparr> else h a)"
proof (induction res arbitrary: h)
  case Nil
  then show ?case by simp
next
  case (Cons p res)
  obtain a t where p: "p = (a, t)" by (cases p)
  show ?case
  proof (cases "t = DNF")
    case True
    from Cons.prems have va: "valid_runner (h a)" by (simp add: valid_heap_def)
    then have "valid_runner ((h a)\<lparr>energy := 1000\<rparr>)"
      by (simp add: valid_runner_def energy_ok_def)
    from valid_heap_upd [OF Cons.prems this]
    have vh: "valid_heap (h(a := (h a)\<lparr>energy := 1000\<rparr>))" .
    show ?thesis
      unfolding p True recover_dnf.simps recover_1000_valid [OF va] sum.case Cons.IH [OF vh]
      by (auto simp: fun_eq_iff)
  next
    case False
    then show ?thesis
      by (auto simp: p Cons.IH [OF Cons.prems] fun_eq_iff)
  qed
qed

lemma valid_example_heap: "valid_heap example_heap"
  by (simp add: valid_heap_def example_heap_def valid_runner_def energy_ok_def elijah_def rupert_def)

text \<open>
  Claim C7. A short race has to give every runner a finite time, whatever its positive
  distance is. The constructor accepts the infinite distance, and on it
  \<^verbatim>\<open>conduct_race\<close> returns the infinity as the time of the runner. The test that is
  missing is the one of the claims C2 and C10: the constructor tests that the distance
  is positive and not that it is finite. For the rest the code does what the claim says:
  see \<open>short_race_times\<close>.
\<close>

theorem short_race_infinite_distance:
  "ShortRace (PFloat PosInf) (PList [PRunner 0]) =
     Inr \<lparr>distance = PosInf, runners = [0], race_type = ''short'', energy_per_km = 100,
          maximum_participants = 8, time_multiplier = Fin (12 / 10)\<rparr> \<and>
   conduct_race example_heap
     \<lparr>distance = PosInf, runners = [0], race_type = ''short'', energy_per_km = 100,
      maximum_participants = 8, time_multiplier = Fin (12 / 10)\<rparr> =
     Inr (example_heap, [(0, Time PosInf)])"
  by (simp add: ShortRace_def race_init_def conduct_race_def run_race_def example_heap_def
      elijah_def)

text \<open>
  Claim C2. A marathon has to return one result for each member of the roster whatever
  its positive distance is. The constructor accepts the infinite distance, and on it
  \<^verbatim>\<open>conduct_race\<close> raises \<^verbatim>\<open>OverflowError\<close> in \<^verbatim>\<open>math.ceil\<close> and returns no
  result (every runner should be marked \<^verbatim>\<open>"DNF"\<close>, since the energy ends after ten
  kilometres). For a finite distance the code does what the claim says: see
  \<open>marathon_finite_distance\<close> and \<open>marathon_run_distinct\<close>.
\<close>

theorem marathon_infinite_distance_raises:
  "MarathonRace (PFloat PosInf) (PList [PRunner 0, PRunner 1]) =
     Inr \<lparr>distance = PosInf, runners = [0, 1], race_type = ''long'', energy_per_km = 100,
          maximum_participants = 16, time_multiplier = Fin (12 / 10)\<rparr> \<and>
   conduct_race example_heap
     \<lparr>distance = PosInf, runners = [0, 1], race_type = ''long'', energy_per_km = 100,
      maximum_participants = 16, time_multiplier = Fin (12 / 10)\<rparr> = Inl OverflowError"
  by (simp add: MarathonRace_def race_init_def conduct_race_def)

text \<open>
  Claim C10. \<^verbatim>\<open>conduct_race\<close> has to raise nothing on a race whose construction
  succeeded. The construction of a marathon over the infinite distance succeeds, the
  runners in the heap are valid, and \<^verbatim>\<open>conduct_race\<close> raises \<^verbatim>\<open>OverflowError\<close>:
  not in \<^verbatim>\<open>run_race\<close> or \<^verbatim>\<open>drain_energy\<close>, whose tests do pass, but in
  \<^verbatim>\<open>math.ceil\<close>. On a finite distance it raises nothing: see
  \<open>conduct_race_finite_returns\<close>.
\<close>

theorem conduct_race_raises_overflow:
  "race_init (PFloat PosInf) (PList [PRunner 0]) (PStr ''long'') =
     Inr \<lparr>distance = PosInf, runners = [0], race_type = ''long'', energy_per_km = 100,
          maximum_participants = 16, time_multiplier = Fin (12 / 10)\<rparr> \<and>
   valid_heap example_heap \<and>
   conduct_race example_heap
     \<lparr>distance = PosInf, runners = [0], race_type = ''long'', energy_per_km = 100,
      maximum_participants = 16, time_multiplier = Fin (12 / 10)\<rparr> = Inl OverflowError"
  by (simp add: race_init_def conduct_race_def valid_example_heap)

text \<open>
  Claim C6. The roster of a race has to hold at most 8 runners (16 in a marathon) and no
  runner twice, however the race is built. \<^verbatim>\<open>add_runner\<close> refuses a ninth runner and
  a runner that is in the roster, but the constructor tests neither: it builds a short
  race of nine runners, and a marathon with the same runner twice.
\<close>

theorem race_init_ignores_roster_invariant:
  "ShortRace (PFloat (Fin 1)) (PList (map PRunner [0, 1, 2, 3, 4, 5, 6, 7, 8])) =
     Inr \<lparr>distance = Fin 1, runners = [0, 1, 2, 3, 4, 5, 6, 7, 8], race_type = ''short'',
          energy_per_km = 100, maximum_participants = 8, time_multiplier = Fin (12 / 10)\<rparr> \<and>
   MarathonRace (PFloat (Fin 5)) (PList [PRunner 0, PRunner 0]) =
     Inr \<lparr>distance = Fin 5, runners = [0, 0], race_type = ''long'',
          energy_per_km = 100, maximum_participants = 16, time_multiplier = Fin (12 / 10)\<rparr>"
  by (simp add: ShortRace_def MarathonRace_def race_init_def)

lemma add_runner_keeps_invariant:
  assumes "length (runners rc) \<le> maximum_participants rc" and "distinct (runners rc)"
    and "add_runner rc v = Inr rc'"
  shows "length (runners rc') \<le> maximum_participants rc' \<and> distinct (runners rc')"
  using assms by (auto simp: add_runner_def split: if_splits)

lemma remove_runner_keeps_invariant:
  assumes "length (runners rc) \<le> maximum_participants rc" and "distinct (runners rc)"
    and "remove_runner rc v = Inr rc'"
  shows "length (runners rc') \<le> maximum_participants rc' \<and> distinct (runners rc')"
  using assms by (auto simp: remove_runner_def length_remove1 split: if_splits)

lemma race_init_fields:
  assumes "race_init d rs rt = Inr rc"
  shows "fl_lt (Fin 0) (distance rc) \<and> (race_type rc = ''short'' \<or> race_type rc = ''long'') \<and>
         time_multiplier rc = Fin (12 / 10) \<and> distance rc = float_of d"
  using assms by (auto simp: race_init_def Let_def split: if_splits)

lemma marathon_finite_distance:
  assumes "valid_heap h" and "race_type rc = ''long''" and "distance rc = Fin d" and "0 < d"
  shows "conduct_race h rc = Inr (marathon_run (nat \<lceil>d\<rceil>) h (runners rc)) \<and> 0 < nat \<lceil>d\<rceil>"
  using assms by (simp add: conduct_race_def long_loop_finite)

lemma conduct_race_finite_returns:
  assumes "valid_heap h" and "race_init d rs rt = Inr rc" and "is_fin (distance rc)"
  shows "\<exists>h' res. conduct_race h rc = Inr (h', res)"
proof -
  note f = race_init_fields [OF assms(2)]
  from assms(3) obtain x where x: "distance rc = Fin x" by (cases "distance rc") auto
  show ?thesis
  proof (cases "race_type rc = ''short''")
    case True
    from short_loop_valid [OF assms(1)] f obtain res where
      "short_loop h rc (runners rc) = Inr res" by blast
    with True show ?thesis by (simp add: conduct_race_def)
  next
    case False
    with f have "race_type rc = ''long''" by simp
    then show ?thesis
      by (simp add: conduct_race_def long_loop_finite [OF x assms(1)])
  qed
qed

section \<open>Properties of the competition\<close>

lemma ShortRace_fields:
  assumes "ShortRace d rs = Inr rc"
  shows "race_type rc = ''short''"
  using assms by (auto simp: ShortRace_def race_init_def Let_def split: if_splits)

lemma MarathonRace_fields:
  assumes "MarathonRace d rs = Inr rc"
  shows "race_type rc = ''long''"
  using assms by (auto simp: MarathonRace_def race_init_def Let_def split: if_splits)

lemma round_races_props:
  assumes "valid_heap h" and "round_races c i h = Inr (h2, short_result, marathon_result)"
  shows "valid_heap h2 \<and> map fst short_result = comp_runners c \<and>
         map fst marathon_result = comp_runners c \<and> (\<forall>a. \<exists>e. h2 a = (h a)\<lparr>energy := e\<rparr>)"
proof -
  from assms(2) obtain ds sr dm mr h1 where
    s: "ShortRace (PFloat ds) (PList (map PRunner (comp_runners c))) = Inr sr"
       "conduct_race h (sr\<lparr>runners := comp_runners c\<rparr>) = Inr (h1, short_result)"
    and m: "MarathonRace (PFloat dm) (PList (map PRunner (comp_runners c))) = Inr mr"
       "conduct_race h1 (mr\<lparr>runners := comp_runners c\<rparr>) = Inr (h2, marathon_result)"
    unfolding round_races_def by (auto split: sum.splits)
  from conduct_race_props [OF assms(1) s(2)] ShortRace_fields [OF s(1)]
  have 1: "map fst short_result = comp_runners c" "h1 = h" by simp_all
  from conduct_race_props [OF assms(1) m(2) [unfolded 1]] MarathonRace_fields [OF m(1)]
  have 2: "map fst marathon_result = comp_runners c" "valid_heap h2"
    "\<forall>a. \<exists>e. h2 a = (h a)\<lparr>energy := e\<rparr>" by simp_all
  from 1 2 show ?thesis by simp
qed

text \<open>
  Claim C5. Take a round of \<^verbatim>\<open>conduct_competition\<close> that starts on a heap of valid
  runners and whose two races return. The recovery that follows raises nothing; after it
  every runner with a \<^verbatim>\<open>"DNF"\<close> in the marathon has the energy 1000, its maximum,
  whatever energy the marathon left, and every other runner is as the marathon left it.
  The leaderboard updates do not touch the heap: when the round completes, this is the
  heap that it returns and that the next round of the loop starts from.
\<close>

theorem dnf_runners_recover:
  assumes "valid_heap h" and "round_races c i h = Inr (h2, short_result, marathon_result)"
  shows "\<exists>h3. recover_dnf h2 marathon_result = Inr h3 \<and>
           (\<forall>a. (a, DNF) \<in> set marathon_result \<longrightarrow>
                  energy (h3 a) = 1000 \<and> max_energy (h3 a) = 1000) \<and>
           (\<forall>a. (a, DNF) \<notin> set marathon_result \<longrightarrow> h3 a = h2 a) \<and>
           (\<forall>lb h' lb'. conduct_round c i h lb = Inr (h', lb') \<longrightarrow> h' = h3) \<and>
           (\<forall>lb h' lb' n. n \<le> rounds c \<longrightarrow> conduct_round c i h lb = Inr (h', lb') \<longrightarrow>
                  comp_loop c n i h lb = comp_loop c (n + 1) i h' lb')"
proof -
  from round_races_props [OF assms] have v: "valid_heap h2" by simp
  let ?h3 = "\<lambda>a. if (a, DNF) \<in> set marathon_result then (h2 a)\<lparr>energy := 1000\<rparr> else h2 a"
  note r = recover_dnf_valid [OF v, of marathon_result]
  have a: "\<forall>a. (a, DNF) \<in> set marathon_result \<longrightarrow>
                  energy (?h3 a) = 1000 \<and> max_energy (?h3 a) = 1000"
    using v by (simp add: valid_heap_def valid_runner_def energy_ok_def)
  have b: "\<forall>lb h' lb'. conduct_round c i h lb = Inr (h', lb') \<longrightarrow> h' = ?h3"
    unfolding conduct_round_def assms(2) sum.case prod.case r
    by (auto split: sum.splits)
  have c: "\<forall>lb h' lb' n. n \<le> rounds c \<longrightarrow> conduct_round c i h lb = Inr (h', lb') \<longrightarrow>
                  comp_loop c n i h lb = comp_loop c (n + 1) i h' lb'"
    by (auto simp: comp_loop.simps [of c _ i h])
  from r a b c show ?thesis by simp
qed

lemma dnf_round_races:
  "round_races dnf_competition 0 example_heap =
     Inr (example_heap(0 := elijah\<lparr>energy := 0\<rparr>, 1 := rupert\<lparr>energy := 0\<rparr>),
          [(0, Time (Fin (206892 / 1000))), (1, Time (Fin (521736 / 1000)))],
          [(0, DNF), (1, DNF)])"
proof -
  let ?S = "\<lparr>distance = Fin 1, runners = [0, 1], race_type = ''short'', energy_per_km = 100,
             maximum_participants = 8, time_multiplier = Fin (12 / 10)\<rparr>"
  let ?M = "\<lparr>distance = Fin 11, runners = [0, 1], race_type = ''long'', energy_per_km = 100,
             maximum_participants = 16, time_multiplier = Fin (12 / 10)\<rparr>"
  have i1: "py_index (distances_short dnf_competition) 0 = Inr (Fin 1)"
    and i2: "py_index (distances_marathon dnf_competition) 0 = Inr (Fin 11)"
    and rs: "comp_runners dnf_competition = [0, 1]"
    by (simp_all add: py_index_def dnf_competition_def)
  have sr: "ShortRace (PFloat (Fin 1)) (PList (map PRunner [0, 1])) = Inr ?S"
    and mr: "MarathonRace (PFloat (Fin 11)) (PList (map PRunner [0, 1])) = Inr ?M"
    by (simp_all add: ShortRace_def MarathonRace_def race_init_def)
  have us: "?S\<lparr>runners := [0, 1]\<rparr> = ?S" and um: "?M\<lparr>runners := [0, 1]\<rparr> = ?M"
    by simp_all
  have cs: "conduct_race example_heap ?S =
           Inr (example_heap, [(0, Time (Fin (206892 / 1000))), (1, Time (Fin (521736 / 1000)))])"
    by (simp add: conduct_race_def run_race_def example_heap_def elijah_def rupert_def
        round_half_even_def)
  have "long_loop example_heap ?M [0, 1] =
          Inr (marathon_run (nat \<lceil>11 :: real\<rceil>) example_heap [0, 1])"
    by (rule long_loop_finite [OF _ valid_example_heap]) simp
  also have "marathon_run (nat \<lceil>11 :: real\<rceil>) example_heap [0, 1] =
          (example_heap(0 := elijah\<lparr>energy := 0\<rparr>, 1 := rupert\<lparr>energy := 0\<rparr>),
                [(0, DNF), (1, DNF)])"
    by (simp add: marathon_outcome_def drained_def example_heap_def elijah_def rupert_def)
  finally have cm: "conduct_race example_heap ?M =
          Inr (example_heap(0 := elijah\<lparr>energy := 0\<rparr>, 1 := rupert\<lparr>energy := 0\<rparr>),
                [(0, DNF), (1, DNF)])"
    by (simp add: conduct_race_def)
  show ?thesis
    unfolding round_races_def i1 i2 rs sr mr us um cs cm sum.case prod.case ..
qed

theorem dnf_runners_recover_witness:
  "valid_heap example_heap \<and>
   round_races dnf_competition 0 example_heap =
     Inr (example_heap(0 := elijah\<lparr>energy := 0\<rparr>, 1 := rupert\<lparr>energy := 0\<rparr>),
          [(0, Time (Fin (206892 / 1000))), (1, Time (Fin (521736 / 1000)))],
          [(0, DNF), (1, DNF)]) \<and>
   (\<exists>h3. recover_dnf (example_heap(0 := elijah\<lparr>energy := 0\<rparr>, 1 := rupert\<lparr>energy := 0\<rparr>))
            [(0, DNF), (1, DNF)] = Inr h3 \<and>
          energy (h3 0) = 1000 \<and> energy (h3 1) = 1000 \<and> h3 2 = example_heap 2)"
proof -
  from dnf_runners_recover [OF valid_example_heap dnf_round_races]
  obtain h3 where
    "recover_dnf (example_heap(0 := elijah\<lparr>energy := 0\<rparr>, 1 := rupert\<lparr>energy := 0\<rparr>))
            [(0, DNF), (1, DNF)] = Inr h3"
    "\<forall>a. (a, DNF) \<in> set [(0, DNF), (1, DNF)] \<longrightarrow> energy (h3 a) = 1000 \<and> max_energy (h3 a) = 1000"
    "\<forall>a. (a, DNF) \<notin> set [(0::nat, DNF), (1, DNF)] \<longrightarrow>
        h3 a = (example_heap(0 := elijah\<lparr>energy := 0\<rparr>, 1 := rupert\<lparr>energy := 0\<rparr>)) a"
    by blast
  then have "recover_dnf (example_heap(0 := elijah\<lparr>energy := 0\<rparr>, 1 := rupert\<lparr>energy := 0\<rparr>))
            [(0, DNF), (1, DNF)] = Inr h3 \<and>
          energy (h3 0) = 1000 \<and> energy (h3 1) = 1000 \<and> h3 2 = example_heap 2"
    by simp
  with valid_example_heap dnf_round_races show ?thesis by blast
qed

subsection \<open>Sorting the results\<close>

lemma insert_by_mset:
  "insert_by lt key x ys = Inr zs \<Longrightarrow> mset zs = add_mset x (mset ys)"
  by (induction ys arbitrary: zs) (auto split: sum.splits if_splits)

lemma py_sorted_mset:
  "py_sorted lt key xs = Inr ys \<Longrightarrow> mset ys = mset xs"
  by (induction xs arbitrary: ys) (auto split: sum.splits dest: insert_by_mset)

lemma py_sorted_set:
  "py_sorted lt key xs = Inr ys \<Longrightarrow> set ys = set xs"
  by (metis py_sorted_mset set_mset_mset)

lemma py_sorted_length:
  "py_sorted lt key xs = Inr ys \<Longrightarrow> length ys = length xs"
  by (metis py_sorted_mset size_mset)

lemma lt_outcome_error: "lt_outcome a b = Inl e \<Longrightarrow> e = TypeError"
  by (cases a; cases b) auto

lemma insert_by_outcome_error:
  "insert_by lt_outcome key x ys = Inl e \<Longrightarrow> e = TypeError"
  by (induction ys) (auto split: sum.splits if_splits dest: lt_outcome_error)

lemma py_sorted_outcome_error:
  "py_sorted lt_outcome key xs = Inl e \<Longrightarrow> e = TypeError"
  by (induction xs) (auto split: sum.splits dest: insert_by_outcome_error)

lemma insert_by_same_kind:
  "insert_by lt_outcome key x (y # ys) = Inr zs \<Longrightarrow> (key x = DNF) = (key y = DNF)"
  by (cases "key x"; cases "key y") (auto split: sum.splits)

lemma py_sorted_same_kind:
  "py_sorted lt_outcome key xs = Inr ys \<Longrightarrow>
     (\<forall>x \<in> set xs. key x = DNF) \<or> (\<forall>x \<in> set xs. key x \<noteq> DNF)"
proof (induction xs arbitrary: ys)
  case Nil
  then show ?case by simp
next
  case (Cons x xs)
  from Cons.prems obtain ys' where ys': "py_sorted lt_outcome key xs = Inr ys'"
    and ins: "insert_by lt_outcome key x ys' = Inr ys"
    by (auto split: sum.splits)
  note IH = Cons.IH [OF ys']
  show ?case
  proof (cases ys')
    case Nil
    with py_sorted_set [OF ys'] have "xs = []" by simp
    then show ?thesis by simp
  next
    case (Cons y ys'')
    with py_sorted_set [OF ys'] have y: "y \<in> set xs" by auto
    from insert_by_same_kind [OF ins [unfolded Cons]] have "(key x = DNF) = (key y = DNF)" .
    with IH y show ?thesis by auto
  qed
qed

lemma py_sorted_all_dnf:
  "\<forall>x \<in> set xs. key x = DNF \<Longrightarrow> py_sorted lt_outcome key xs = Inr xs"
proof (induction xs)
  case Nil
  then show ?case by simp
next
  case (Cons x xs)
  then have "py_sorted lt_outcome key xs = Inr xs" "key x = DNF" by simp_all
  moreover have "insert_by lt_outcome key x xs = Inr (x # xs)"
    using Cons.prems by (cases xs) auto
  ultimately show ?case by simp
qed

text \<open>
  Claim C1. \<^verbatim>\<open>update_leaderboard\<close> has to accept every list of results, the sort
  placing the \<^verbatim>\<open>"DNF"\<close> results after the times. It accepts a list of times and a
  list of \<^verbatim>\<open>"DNF"\<close> results only (\<open>py_sorted_all_dnf\<close>): on every list that holds
  a time and a \<^verbatim>\<open>"DNF"\<close> the sort compares a float with a string and
  \<^verbatim>\<open>update_leaderboard\<close> raises \<^verbatim>\<open>TypeError\<close>, whatever the heap and the
  leaderboard are.
\<close>

theorem update_leaderboard_mixed_raises:
  assumes "(a, Time t) \<in> set results" and "(b, DNF) \<in> set results"
  shows "update_leaderboard h lb results = Inl TypeError"
proof (cases "py_sorted lt_outcome snd results")
  case (Inl e)
  with py_sorted_outcome_error [OF Inl] show ?thesis
    by (simp add: update_leaderboard_def)
next
  case (Inr ys)
  from py_sorted_same_kind [OF Inr] assms have False by force
  then show ?thesis ..
qed

theorem update_leaderboard_mixed_raises_witness:
  "(0, Time (Fin 300)) \<in> set [(0 :: nat, Time (Fin 300)), (1, DNF)] \<and>
   (1, DNF) \<in> set [(0 :: nat, Time (Fin 300)), (1, DNF)] \<and>
   update_leaderboard example_heap [(''1st'', None), (''2nd'', None)]
     [(0, Time (Fin 300)), (1, DNF)] = Inl TypeError"
proof -
  have 1: "(0, Time (Fin 300)) \<in> set [(0 :: nat, Time (Fin 300)), (1, DNF)]"
    and 2: "(1, DNF) \<in> set [(0 :: nat, Time (Fin 300)), (1, DNF)]"
    by simp_all
  from update_leaderboard_mixed_raises [OF 1 2] 1 2 show ?thesis by blast
qed

lemma update_leaderboard_all_dnf_example:
  "update_leaderboard example_heap [(''1st'', None), (''2nd'', None)] [(0, DNF), (1, DNF)] =
     Inr [(''1st'', Some (''Elijah'', 0)), (''2nd'', Some (''Rupert'', 0))]"
  by (simp add: update_leaderboard_def name2score_of_def example_heap_def elijah_def rupert_def
      lt_int_def enumerate_eq_zip)

subsection \<open>The scores of a race\<close>

lemma update_fresh:
  "k \<notin> fst ` set al \<Longrightarrow> AList.update k v al = al @ [(k, v)]"
  by (induction al) auto

lemma foldl_update_fresh:
  "distinct (map fst kvs) \<Longrightarrow> fst ` set kvs \<inter> fst ` set acc = {} \<Longrightarrow>
   foldl (\<lambda>d p. AList.update (fst p) (snd p) d) acc kvs = acc @ kvs"
proof (induction kvs arbitrary: acc)
  case Nil
  then show ?case by simp
next
  case (Cons p kvs)
  from Cons.prems have fresh: "fst p \<notin> fst ` set acc" by auto
  have "fst ` set kvs \<inter> fst ` set (acc @ [p]) = {}"
    using Cons.prems by auto
  with Cons.IH [of "acc @ [p]"] Cons.prems(1) show ?case
    by (simp add: update_fresh [OF fresh])
qed

lemma name2score_of_distinct:
  assumes "distinct (map (\<lambda>p. name (h (fst p))) srt)"
  shows "name2score_of h n srt =
           map (\<lambda>i. (name (h (fst (srt ! i))), rank_score n i (snd (srt ! i)))) [0..<length srt]"
proof -
  let ?f = "\<lambda>p. (name (h (fst (snd p))), rank_score n (fst p) (snd (snd p)))"
  have fold: "name2score_of h n srt =
      foldl (\<lambda>d p. AList.update (fst p) (snd p) d) [] (map ?f (enumerate 0 srt))"
    unfolding name2score_of_def foldl_map
    by (rule foldl_cong) (auto simp: rank_score_def)
  have keys: "map fst (map ?f (enumerate 0 srt)) = map (\<lambda>p. name (h (fst p))) srt"
    by (rule nth_equalityI) (simp_all add: nth_enumerate_eq)
  have "name2score_of h n srt = map ?f (enumerate 0 srt)"
    unfolding fold using foldl_update_fresh [of "map ?f (enumerate 0 srt)" "[]"] assms keys
    by simp
  also have "\<dots> = map (\<lambda>i. (name (h (fst (srt ! i))), rank_score n i (snd (srt ! i)))) [0..<length srt]"
    by (rule nth_equalityI) (simp_all add: nth_enumerate_eq)
  finally show ?thesis .
qed

lemma fl_le_trans: "fl_le a b \<Longrightarrow> fl_le b c \<Longrightarrow> fl_le a c"
  by (cases a; cases b; cases c) auto

lemma fl_lt_imp_le: "fl_lt a b \<Longrightarrow> fl_le a b"
  by (cases a; cases b) auto

lemma not_fl_lt_imp_le: "\<not> fl_lt b a \<Longrightarrow> a \<noteq> NaN \<Longrightarrow> b \<noteq> NaN \<Longrightarrow> fl_le a b"
  by (cases a; cases b) auto

lemma finishes_before_trans:
  "finishes_before p q \<Longrightarrow> finishes_before q r \<Longrightarrow> finishes_before p r"
  by (auto simp: finishes_before_def split: outcome.splits intro: fl_le_trans)

lemma insert_by_finished:
  assumes "finished x" and "\<forall>y \<in> set ys. finished y" and "sorted_wrt finishes_before ys"
  shows "\<exists>zs. insert_by lt_outcome snd x ys = Inr zs \<and> sorted_wrt finishes_before zs"
  using assms(2,3)
proof (induction ys)
  case Nil
  then show ?case by simp
next
  case (Cons y ys)
  from assms(1) obtain a where a: "snd x = Time a" "a \<noteq> NaN"
    by (cases "snd x") (auto simp: finished_def)
  from Cons.prems obtain b where b: "snd y = Time b" "b \<noteq> NaN"
    by (cases "snd y") (auto simp: finished_def)
  show ?case
  proof (cases "fl_lt b a")
    case True
    from Cons obtain zs where zs: "insert_by lt_outcome snd x ys = Inr zs"
      "sorted_wrt finishes_before zs" by auto
    from insert_by_mset [OF zs(1)] have "set zs = insert x (set ys)"
      by (metis set_mset_add_mset_insert set_mset_mset)
    moreover have "finishes_before y x"
      using True a b by (simp add: finishes_before_def fl_lt_imp_le)
    ultimately show ?thesis
      using True a b zs Cons.prems by auto
  next
    case False
    then have yx: "finishes_before x y"
      using a b by (simp add: finishes_before_def not_fl_lt_imp_le)
    with Cons.prems have "\<forall>z \<in> set ys. finishes_before x z"
      by (auto intro: finishes_before_trans)
    with False yx a b Cons.prems show ?thesis by simp
  qed
qed

lemma py_sorted_finished:
  assumes "\<forall>x \<in> set xs. finished x"
  shows "\<exists>ys. py_sorted lt_outcome snd xs = Inr ys \<and> sorted_wrt finishes_before ys"
  using assms
proof (induction xs)
  case Nil
  then show ?case by simp
next
  case (Cons x xs)
  then obtain ys where ys: "py_sorted lt_outcome snd xs = Inr ys" "sorted_wrt finishes_before ys"
    by auto
  from py_sorted_set [OF ys(1)] Cons.prems have "\<forall>y \<in> set ys. finished y" by simp
  from insert_by_finished [OF _ this ys(2), of x] Cons.prems ys(1) show ?case by simp
qed

lemma rank_scores_set:
  "(\<lambda>i. int n - int i - 1) ` {0..<n} = {0..<int n}"
proof (intro equalityI subsetI)
  fix k assume "k \<in> (\<lambda>i. int n - int i - 1) ` {0..<n}"
  then show "k \<in> {0..<int n}" by auto
next
  fix k assume k: "k \<in> {0..<int n}"
  then have "nat (int n - k - 1) \<in> {0..<n}" "k = int n - int (nat (int n - k - 1)) - 1"
    by auto
  then show "k \<in> (\<lambda>i. int n - int i - 1) ` {0..<n}" by (rule image_eqI [rotated])
qed

text \<open>
  Take the results of one race in which no two runners have the same name. Whenever the
  sort of \<^verbatim>\<open>update_leaderboard\<close> returns, the scores that \<^verbatim>\<open>update_leaderboard\<close>
  gives for the race are, in the order of the sorted list, \<open>N - 1 - i\<close> for a time at
  position \<open>i\<close> and 0 for a \<^verbatim>\<open>"DNF"\<close>, where \<open>N\<close> is the number of results. When all
  \<open>N\<close> runners finish, the sort returns them with ascending times and the scores are
  \<open>N - 1, N - 2, \<dots>, 0\<close> in that order: the set of scores is \<open>{0, \<dots>, N - 1}\<close>.
  When no runner finishes, the sort returns the list as it is and every score is 0.
\<close>

lemma race_scores_by_rank:
  assumes "distinct (map (\<lambda>p. name (h (fst p))) results)"
  shows
    "(\<forall>srt. py_sorted lt_outcome snd results = Inr srt \<longrightarrow>
        mset srt = mset results \<and>
        name2score_of h (length results) srt =
          map (\<lambda>i. (name (h (fst (srt ! i))),
                     if snd (srt ! i) \<noteq> DNF then int (length results) - int i - 1 else 0))
            [0..<length results]) \<and>
     ((\<forall>p \<in> set results. finished p) \<longrightarrow>
        (\<exists>srt. py_sorted lt_outcome snd results = Inr srt \<and>
           sorted_wrt finishes_before srt \<and>
           map snd (name2score_of h (length results) srt) =
             map (\<lambda>i. int (length results) - int i - 1) [0..<length results] \<and>
           snd ` set (name2score_of h (length results) srt) = {0..<int (length results)})) \<and>
     ((\<forall>p \<in> set results. snd p = DNF) \<longrightarrow>
        py_sorted lt_outcome snd results = Inr results \<and>
        map snd (name2score_of h (length results) results) = replicate (length results) 0)"
proof (intro conjI allI impI)
  fix srt
  assume s: "py_sorted lt_outcome snd results = Inr srt"
  show m: "mset srt = mset results" by (rule py_sorted_mset [OF s])
  then have "mset (map (\<lambda>p. name (h (fst p))) srt) = mset (map (\<lambda>p. name (h (fst p))) results)"
    by simp
  with assms have d: "distinct (map (\<lambda>p. name (h (fst p))) srt)"
    by (metis mset_eq_imp_distinct_iff)
  from m have l: "length srt = length results" by (metis size_mset)
  show "name2score_of h (length results) srt =
          map (\<lambda>i. (name (h (fst (srt ! i))),
                     if snd (srt ! i) \<noteq> DNF then int (length results) - int i - 1 else 0))
            [0..<length results]"
    using name2score_of_distinct [OF d, of "length results"] by (simp add: l rank_score_def)
next
  assume f: "\<forall>p \<in> set results. finished p"
  from py_sorted_finished [OF f] obtain srt where
    s: "py_sorted lt_outcome snd results = Inr srt" "sorted_wrt finishes_before srt" by blast
  note m = py_sorted_mset [OF s(1)]
  then have "mset (map (\<lambda>p. name (h (fst p))) srt) = mset (map (\<lambda>p. name (h (fst p))) results)"
    by simp
  with assms have d: "distinct (map (\<lambda>p. name (h (fst p))) srt)"
    by (metis mset_eq_imp_distinct_iff)
  from m have l: "length srt = length results" by (metis size_mset)
  from py_sorted_set [OF s(1)] f have fin: "\<forall>i < length srt. snd (srt ! i) \<noteq> DNF"
    by (auto simp: finished_def)
  have sc: "map snd (name2score_of h (length results) srt) =
             map (\<lambda>i. int (length results) - int i - 1) [0..<length results]"
    unfolding name2score_of_distinct [OF d] using fin by (simp add: l rank_score_def)
  have "snd ` set (name2score_of h (length results) srt) =
          set (map snd (name2score_of h (length results) srt))" by simp
  also have "\<dots> = {0..<int (length results)}"
    unfolding sc by (simp add: rank_scores_set)
  finally show "\<exists>srt. py_sorted lt_outcome snd results = Inr srt \<and>
           sorted_wrt finishes_before srt \<and>
           map snd (name2score_of h (length results) srt) =
             map (\<lambda>i. int (length results) - int i - 1) [0..<length results] \<and>
           snd ` set (name2score_of h (length results) srt) = {0..<int (length results)}"
    using s sc by blast
next
  assume a: "\<forall>p \<in> set results. snd p = DNF"
  show "py_sorted lt_outcome snd results = Inr results"
    by (rule py_sorted_all_dnf [OF a])
  from a have "\<forall>i < length results. snd (results ! i) = DNF" by simp
  then show "map snd (name2score_of h (length results) results) = replicate (length results) 0"
    unfolding name2score_of_distinct [OF assms]
    by (intro nth_equalityI) (simp_all add: rank_score_def)
qed

lemma race_scores_by_rank_example:
  "distinct (map (\<lambda>p. name (example_heap (fst p))) [(0, Time (Fin 100)), (1, Time (Fin 200))]) \<and>
   finished (0, Time (Fin 100)) \<and> finished (1, Time (Fin 200)) \<and>
   (\<exists>srt. py_sorted lt_outcome snd [(0 :: nat, Time (Fin 100)), (1, Time (Fin 200))] = Inr srt \<and>
      sorted_wrt finishes_before srt \<and>
      map snd (name2score_of example_heap 2 srt) = [1, 0])"
proof -
  let ?R = "[(0 :: nat, Time (Fin 100)), (1, Time (Fin 200))]"
  have d: "distinct (map (\<lambda>p. name (example_heap (fst p))) ?R)"
    by (simp add: example_heap_def elijah_def rupert_def)
  have f: "finished (0, Time (Fin 100))" "finished (1, Time (Fin 200))"
    by (simp_all add: finished_def)
  then have all: "\<forall>p \<in> set ?R. finished p" by simp
  from race_scores_by_rank [OF d] all
  obtain srt where s: "py_sorted lt_outcome snd ?R = Inr srt" "sorted_wrt finishes_before srt"
    and m: "map snd (name2score_of example_heap (length ?R) srt) =
       map (\<lambda>i. int (length ?R) - int i - 1) [0..<length ?R]"
    by blast
  have "length ?R = 2" by simp
  from m [unfolded this] have m2: "map snd (name2score_of example_heap 2 srt) = [1, 0]"
    by (simp add: upt_rec)
  have e: "\<exists>srt. py_sorted lt_outcome snd ?R = Inr srt \<and>
      sorted_wrt finishes_before srt \<and>
      map snd (name2score_of example_heap 2 srt) = [1, 0]"
    using s m2 by (intro exI [of _ srt] conjI)
  show ?thesis
    apply (rule conjI)
     apply (rule d)
    apply (rule conjI)
     apply (rule f(1))
    apply (rule conjI)
     apply (rule f(2))
    apply (rule e)
    done
qed

text \<open>
  Claim C3. \<^verbatim>\<open>update_leaderboard\<close> has to give the scores \<open>N - 1, \<dots>, 0\<close> to the
  \<open>N\<close> runners that finish a race, the fastest first. Two runners may have the same
  name, and \<^verbatim>\<open>update_leaderboard\<close> keeps the scores of the race under the names: when
  two runners of one name finish, the score 0 of the second is written over the score 1
  of the first. The race gives the single score 0, the winner gets no point, and the
  second slot of the leaderboard stays empty. For runners of different names the code
  does what the claim says: see \<open>race_scores_by_rank\<close>.
\<close>

theorem race_scores_same_name:
  "py_sorted lt_outcome snd [(0 :: nat, Time (Fin 100)), (1, Time (Fin 200))] =
     Inr [(0, Time (Fin 100)), (1, Time (Fin 200))] \<and>
   name2score_of twin_heap 2 [(0, Time (Fin 100)), (1, Time (Fin 200))] = [(''Elijah'', 0)] \<and>
   update_leaderboard twin_heap [(''1st'', None), (''2nd'', None)]
     [(0, Time (Fin 100)), (1, Time (Fin 200))] =
     Inr [(''1st'', Some (''Elijah'', 0)), (''2nd'', None)]"
  by (simp add: update_leaderboard_def name2score_of_def twin_heap_def elijah_def lt_int_def
      enumerate_eq_zip)

subsection \<open>The leaderboard after the rounds\<close>

lemma digit_char_inj: "a < 10 \<Longrightarrow> b < 10 \<Longrightarrow> digit_char a = digit_char b \<Longrightarrow> a = b"
proof -
  assume a: "a < 10" and b: "b < 10" and e: "digit_char a = digit_char b"
  have d: "distinct ''0123456789''" by simp
  have l: "length ''0123456789'' = 10" by simp
  from e have "''0123456789'' ! a = ''0123456789'' ! b" by (simp only: digit_char_def)
  with nth_eq_iff_index_eq [OF d, of a b] a b l show "a = b" by simp
qed

lemma str_nat_nonempty: "str_nat n \<noteq> []"
  by (subst str_nat.simps) simp

lemma str_nat_inj: "str_nat n = str_nat m \<Longrightarrow> n = m"
proof (induction n arbitrary: m rule: str_nat.induct)
  case (1 n)
  show ?case
  proof (cases "n < 10")
    case True
    show ?thesis
    proof (cases "m < 10")
      case m: True
      from "1.prems" True m have "digit_char n = digit_char m"
        by (simp add: str_nat.simps [of n] str_nat.simps [of m])
      with True m show ?thesis by (rule digit_char_inj)
    next
      case m: False
      from "1.prems" True m have "str_nat (m div 10) = []"
        by (simp add: str_nat.simps [of n] str_nat.simps [of m])
      with str_nat_nonempty show ?thesis by blast
    qed
  next
    case False
    show ?thesis
    proof (cases "m < 10")
      case m: True
      from "1.prems" False m have "str_nat (n div 10) = []"
        by (simp add: str_nat.simps [of n] str_nat.simps [of m])
      with str_nat_nonempty show ?thesis by blast
    next
      case m: False
      from "1.prems" False m have e: "str_nat (n div 10) = str_nat (m div 10)"
        "digit_char (n mod 10) = digit_char (m mod 10)"
        by (simp_all add: str_nat.simps [of n] str_nat.simps [of m])
      from "1.IH" [OF False e(1)] have "n div 10 = m div 10" .
      moreover from e(2) have "n mod 10 = m mod 10"
        by (rule digit_char_inj [rotated 2]) simp_all
      ultimately show ?thesis by (metis div_mult_mod_eq)
    qed
  qed
qed

lemma get_ordinal_nat: "get_ordinal (int n) = str_nat n @ ordinal_suffix n"
proof -
  have m: "int n mod 100 = int (n mod 100)" "int n mod 10 = int (n mod 10)"
    by (simp_all add: zmod_int)
  have r: "(11 \<le> int (n mod 100) \<and> int (n mod 100) \<le> 13) = (n mod 100 \<in> {11, 12, 13})"
    by auto
  show ?thesis
    unfolding get_ordinal_def Let_def m r ordinal_suffix_def str_int_def suffixes_def
    by auto
qed

lemma ordinal_suffix_length: "length (ordinal_suffix n) = 2"
  by (simp add: ordinal_suffix_def)

lemma get_ordinal_inj: "get_ordinal (int n) = get_ordinal (int m) \<Longrightarrow> n = m"
proof -
  assume "get_ordinal (int n) = get_ordinal (int m)"
  then have "str_nat n @ ordinal_suffix n = str_nat m @ ordinal_suffix m"
    by (simp only: get_ordinal_nat)
  then have "str_nat n = str_nat m"
    by (simp add: append_eq_append_conv ordinal_suffix_length)
  then show ?thesis by (rule str_nat_inj)
qed

lemma ordinals_distinct: "distinct (map (\<lambda>i. get_ordinal (int i)) [1..<n + 1])"
  by (auto simp: distinct_map inj_on_def dest: get_ordinal_inj)

lemma foldl_update_fresh_nil:
  "distinct (map fst kvs) \<Longrightarrow> foldl (\<lambda>d p. AList.update (fst p) (snd p) d) [] kvs = kvs"
  using foldl_update_fresh [of kvs "[]"] by simp

lemma init_leaderboard:
  "foldl (\<lambda>lb i. AList.update (get_ordinal (int i)) None lb) [] [1..<n + 1] =
     map (\<lambda>i. (get_ordinal (int i), None :: (string \<times> int) option)) [1..<n + 1]"
proof -
  let ?kvs = "map (\<lambda>i. (get_ordinal (int i), None :: (string \<times> int) option)) [1..<n + 1]"
  have "foldl (\<lambda>lb i. AList.update (get_ordinal (int i)) None lb) [] [1..<n + 1] =
        foldl (\<lambda>d p. AList.update (fst p) (snd p) d) [] ?kvs"
    by (simp add: foldl_map)
  also have "\<dots> = ?kvs"
    by (rule foldl_update_fresh_nil) (simp add: comp_def ordinals_distinct [simplified])
  finally show ?thesis .
qed

lemma competition_init_fields:
  assumes "competition_init rs rn ds dm = Inr c"
  shows "leaderboard c =
           map (\<lambda>i. (get_ordinal (int i), None)) [1..<length (comp_runners c) + 1] \<and>
         1 \<le> rounds c \<and> rounds c \<le> 3 \<and>
         int (length (distances_short c)) = rounds c \<and>
         int (length (distances_marathon c)) = rounds c"
  using assms init_leaderboard [of "length (list_of rs)"]
  by (auto simp: competition_init_def MAX_ROUNDS_def simp del: upt_Suc split: if_splits)

lemma insert_by_lt_int:
  "insert_by lt_int key x ys = Inr (insort_key key x ys)"
  by (induction ys) (auto simp: lt_int_def)

lemma py_sorted_lt_int:
  "py_sorted lt_int key xs = Inr (sort_key key xs)"
  by (induction xs) (auto simp: insert_by_lt_int sort_key_def)

lemma update_present_keys:
  "map_of al k = Some v' \<Longrightarrow> map fst (AList.update k v al) = map fst al"
  by (induction al) (auto split: if_splits)

lemma add_previous_keys:
  "add_previous lb ks n2s = Inr n2s' \<Longrightarrow> map fst n2s' = map fst n2s"
proof (induction ks arbitrary: n2s)
  case Nil
  then show ?case by simp
next
  case (Cons k ks)
  show ?case
  proof (cases "map_of lb k")
    case None
    with Cons.prems show ?thesis by simp
  next
    case (Some v)
    show ?thesis
    proof (cases v)
      case None
      with Some Cons show ?thesis by simp
    next
      case (Some ns)
      obtain nm sc where ns: "ns = (nm, sc)" by (cases ns)
      from Cons.prems \<open>map_of lb k = Some v\<close> Some ns obtain s where
        s: "map_of n2s nm = Some s"
        and r: "add_previous lb ks (AList.update nm (s + sc) n2s) = Inr n2s'"
        by (auto split: option.splits)
      from Cons.IH [OF r] update_present_keys [OF s] show ?thesis by simp
    qed
  qed
qed

lemma update_at_index:
  "distinct (map fst al) \<Longrightarrow> i < length al \<Longrightarrow>
   AList.update (map fst al ! i) v al = al[i := (map fst al ! i, v)]"
proof (induction al arbitrary: i)
  case Nil
  then show ?case by simp
next
  case (Cons p al)
  show ?case
  proof (cases i)
    case 0
    then show ?thesis by simp
  next
    case (Suc j)
    with Cons.prems have j: "j < length al" "distinct (map fst al)" by simp_all
    from Cons.prems Suc j have "fst p \<noteq> map fst al ! j"
      by (metis distinct.simps(2) length_map list.simps(9) nth_mem)
    with Cons.IH [OF j(2,1)] Suc show ?thesis by simp
  qed
qed

lemma assign_ranks_result:
  "distinct keys \<Longrightarrow> map fst lb = keys \<Longrightarrow> i + length sr \<le> length keys \<Longrightarrow>
   \<exists>lb'. assign_ranks keys i sr lb = Inr lb' \<and> map fst lb' = keys \<and>
         map snd lb' = take i (map snd lb) @ map Some sr @ drop (i + length sr) (map snd lb)"
proof (induction sr arbitrary: i lb)
  case Nil
  then show ?case by simp
next
  case (Cons ns sr)
  from Cons.prems have i: "i < length keys" "i < length lb" by auto
  let ?lb = "AList.update (keys ! i) (Some ns) lb"
  from Cons.prems(1,2) i have u: "?lb = lb[i := (keys ! i, Some ns)]"
    using update_at_index [of lb i "Some ns"] by simp
  have k: "map fst ?lb = keys"
    unfolding u using Cons.prems(2) i by (simp add: map_update list_update_same_conv)
  have s: "map snd ?lb = (map snd lb)[i := Some ns]"
    unfolding u by (simp add: map_update)
  from Cons.prems have "Suc i + length sr \<le> length keys" by simp
  from Cons.IH [OF Cons.prems(1) k this] obtain lb' where
    lb': "assign_ranks keys (Suc i) sr ?lb = Inr lb'" "map fst lb' = keys"
    "map snd lb' = take (Suc i) (map snd ?lb) @ map Some sr @ drop (Suc i + length sr) (map snd ?lb)"
    by blast
  have "take (Suc i) ((map snd lb)[i := Some ns]) = take i (map snd lb) @ [Some ns]"
    using i by (simp add: take_Suc_conv_app_nth)
  moreover have "drop (Suc i + length sr) ((map snd lb)[i := Some ns]) =
                 drop (i + length (ns # sr)) (map snd lb)"
    by simp
  ultimately show ?case
    using lb' i by (simp add: s)
qed

lemma update_leaderboard_full:
  assumes "distinct (map fst lb)" and "length lb = length results"
    and "distinct (map (\<lambda>p. name (h (fst p))) results)"
    and "update_leaderboard h lb results = Inr lb'"
  shows "map fst lb' = map fst lb \<and> full_board (map (\<lambda>p. name (h (fst p))) results) lb'"
proof -
  from assms(4) obtain srt n2s sr where
    srt: "py_sorted lt_outcome snd results = Inr srt"
    and n2s: "add_previous lb (map fst lb) (name2score_of h (length results) srt) = Inr n2s"
    and sr: "py_sorted lt_int (\<lambda>x. - snd x) n2s = Inr sr"
    and fin: "assign_ranks (map fst lb) 0 sr lb = Inr lb'"
    unfolding update_leaderboard_def Let_def by (auto split: sum.splits)
  note m = py_sorted_mset [OF srt]
  then have mn: "mset (map (\<lambda>p. name (h (fst p))) srt) = mset (map (\<lambda>p. name (h (fst p))) results)"
    by simp
  with assms(3) have d: "distinct (map (\<lambda>p. name (h (fst p))) srt)"
    by (metis mset_eq_imp_distinct_iff)
  from m have l: "length srt = length results" by (metis size_mset)
  have k0: "map fst (name2score_of h (length results) srt) = map (\<lambda>p. name (h (fst p))) srt"
    unfolding name2score_of_distinct [OF d] by (rule nth_equalityI) simp_all
  from add_previous_keys [OF n2s] k0
  have k1: "map fst n2s = map (\<lambda>p. name (h (fst p))) srt" by simp
  from sr have sr_eq: "sr = sort_key (\<lambda>x. - snd x) n2s" by (simp add: py_sorted_lt_int)
  then have msr: "mset sr = mset n2s" and ssr: "sorted (map (\<lambda>x. - snd x) sr)"
    by simp_all
  from msr have lsr: "length sr = length n2s" by (metis size_mset)
  also from k1 have "\<dots> = length srt" by (metis length_map)
  finally have len: "0 + length sr \<le> length (map fst lb)"
    using l assms(2) by simp
  from assign_ranks_result [OF assms(1) refl len] fin
  have kf: "map fst lb' = map fst lb" and vf: "map snd lb' = map Some sr"
    using lsr k1 l assms(2) by (auto dest: arg_cong [where f = length])
  from msr have "mset (map fst sr) = mset (map fst n2s)" by simp
  with k1 mn have names: "mset (map fst sr) = mset (map (\<lambda>p. name (h (fst p))) results)"
    by simp
  from ssr have desc: "sorted_wrt (\<lambda>p q. snd q \<le> snd p) sr"
    by (simp add: sorted_map sorted_wrt_iff_nth_less sorted_iff_nth_mono)
  have "full_board (map (\<lambda>p. name (h (fst p))) results) lb'"
    unfolding full_board_def vf
    using names desc by (simp add: list_all_iff comp_def sorted_wrt_map)
  with kf show ?thesis by simp
qed

lemma conduct_round_board:
  assumes "valid_heap h" and "distinct (map fst lb)" and "length lb = length (comp_runners c)"
    and "distinct (map (\<lambda>a. name (h a)) (comp_runners c))"
    and "conduct_round c i h lb = Inr (h', lb')"
  shows "valid_heap h' \<and> (\<forall>a. name (h' a) = name (h a)) \<and> map fst lb' = map fst lb \<and>
         full_board (map (\<lambda>a. name (h a)) (comp_runners c)) lb'"
proof -
  from assms(5) obtain h2 sr mr h3 lb1 where
    rr: "round_races c i h = Inr (h2, sr, mr)"
    and rc: "recover_dnf h2 mr = Inr h3"
    and u1: "update_leaderboard h3 lb sr = Inr lb1"
    and u2: "update_leaderboard h3 lb1 mr = Inr lb'"
    and hh: "h' = h3"
    unfolding conduct_round_def by (auto split: sum.splits)
  note p = round_races_props [OF assms(1) rr]
  then have v2: "valid_heap h2" by simp
  from rc recover_dnf_valid [OF v2, of mr]
  have h3: "h3 = (\<lambda>a. if (a, DNF) \<in> set mr then (h2 a)\<lparr>energy := 1000\<rparr> else h2 a)"
    by simp
  have n3: "name (h3 a) = name (h a)" for a
  proof -
    from p obtain e where "h2 a = (h a)\<lparr>energy := e\<rparr>" by blast
    then show ?thesis by (simp add: h3)
  qed
  have "valid_runner (h3 a)" for a
  proof -
    from v2 have "valid_runner (h2 a)" by (simp add: valid_heap_def)
    then show ?thesis by (simp add: h3 valid_runner_def energy_ok_def)
  qed
  then have v3: "valid_heap h3" by (simp add: valid_heap_def)
  have ns: "map (\<lambda>p. name (h3 (fst p))) sr = map (\<lambda>a. name (h a)) (comp_runners c)"
    and nm: "map (\<lambda>p. name (h3 (fst p))) mr = map (\<lambda>a. name (h a)) (comp_runners c)"
  proof -
    have "map (\<lambda>p. name (h (fst p))) xs = map (\<lambda>a. name (h a)) (map fst xs)"
      for xs :: results
      by simp
    with p show "map (\<lambda>p. name (h3 (fst p))) sr = map (\<lambda>a. name (h a)) (comp_runners c)"
      and "map (\<lambda>p. name (h3 (fst p))) mr = map (\<lambda>a. name (h a)) (comp_runners c)"
      by (simp_all only: n3)
  qed
  from p have ls: "length sr = length (comp_runners c)" and lm: "length mr = length (comp_runners c)"
    by (metis length_map)+
  from update_leaderboard_full [OF assms(2) _ _ u1] assms(3,4) ls ns
  have k1: "map fst lb1 = map fst lb" by simp
  then have d1: "distinct (map fst lb1)" and l1: "length lb1 = length mr"
    using assms(2,3) lm by (simp_all, metis length_map)
  from update_leaderboard_full [OF d1 l1 _ u2] assms(4) nm k1
  have "map fst lb' = map fst lb"
    "full_board (map (\<lambda>a. name (h a)) (comp_runners c)) lb'"
    by simp_all
  with v3 n3 hh show ?thesis by simp
qed

lemma comp_loop_board:
  "valid_heap h \<Longrightarrow> distinct (map fst lb) \<Longrightarrow> length lb = length (comp_runners c) \<Longrightarrow>
   distinct (map (\<lambda>a. name (h a)) (comp_runners c)) \<Longrightarrow>
   comp_loop c n i h lb = Inr (h', lb') \<Longrightarrow>
   map fst lb' = map fst lb \<and>
   (if n \<le> rounds c then full_board (map (\<lambda>a. name (h a)) (comp_runners c)) lb'
    else lb' = lb)"
proof (induction c n i h lb rule: comp_loop.induct)
  case (1 c n i h lb)
  show ?case
  proof (cases "n \<le> rounds c")
    case False
    with "1.prems"(5) show ?thesis by (simp add: comp_loop.simps [of c n])
  next
    case True
    with "1.prems"(5) obtain h1 lb1 where
      r: "conduct_round c i h lb = Inr (h1, lb1)"
      and l: "comp_loop c (n + 1) i h1 lb1 = Inr (h', lb')"
      by (auto simp: comp_loop.simps [of c n] split: sum.splits)
    from conduct_round_board [OF "1.prems"(1-4) r]
    have b: "valid_heap h1" "\<forall>a. name (h1 a) = name (h a)" "map fst lb1 = map fst lb"
      "full_board (map (\<lambda>a. name (h a)) (comp_runners c)) lb1"
      by simp_all
    from b(3) "1.prems"(2,3) have d1: "distinct (map fst lb1)"
      and l1: "length lb1 = length (comp_runners c)"
      by (simp_all, metis length_map)
    from b(2) have nn: "map (\<lambda>a. name (h1 a)) (comp_runners c) = map (\<lambda>a. name (h a)) (comp_runners c)"
      by simp
    from "1.prems"(4) have dn: "distinct (map (\<lambda>a. name (h1 a)) (comp_runners c))"
      unfolding nn .
    from "1.IH" [OF True r refl b(1) d1 l1 dn l]
    have "map fst lb' = map fst lb1"
      "if n + 1 \<le> rounds c then full_board (map (\<lambda>a. name (h1 a)) (comp_runners c)) lb'
       else lb' = lb1"
      by simp_all
    with b True nn show ?thesis by (simp split: if_splits)
  qed
qed

lemma map_of_update_other:
  "nm \<noteq> k \<Longrightarrow> map_of (AList.update k v al) nm = map_of al nm"
  by (simp add: update_conv')

lemma add_previous_scores:
  "add_previous lb ks n2s = Inr n2s' \<Longrightarrow>
   map_of n2s' nm =
     map_option (\<lambda>s. s + sum_list (map (\<lambda>k. slot_score nm (the (map_of lb k))) ks))
       (map_of n2s nm)"
proof (induction ks arbitrary: n2s)
  case Nil
  then show ?case by (simp add: option.map_ident)
next
  case (Cons k ks)
  show ?case
  proof (cases "map_of lb k")
    case None
    with Cons.prems show ?thesis by simp
  next
    case (Some v)
    show ?thesis
    proof (cases v)
      case None
      with Some Cons.prems have "add_previous lb ks n2s = Inr n2s'" by simp
      from Cons.IH [OF this] Some None show ?thesis
        by (simp add: slot_score_def)
    next
      case (Some ns)
      obtain nm' sc where ns: "ns = (nm', sc)" by (cases ns)
      from Cons.prems \<open>map_of lb k = Some v\<close> Some ns obtain s where
        s: "map_of n2s nm' = Some s"
        and r: "add_previous lb ks (AList.update nm' (s + sc) n2s) = Inr n2s'"
        by (auto split: option.splits)
      note IH = Cons.IH [OF r]
      show ?thesis
      proof (cases "nm' = nm")
        case True
        with IH s \<open>map_of lb k = Some v\<close> Some ns show ?thesis
          by (simp add: update_conv' slot_score_def)
      next
        case False
        with IH \<open>map_of lb k = Some v\<close> Some ns show ?thesis
          by (cases "map_of n2s nm") (simp_all add: update_conv' slot_score_def)
      qed
    qed
  qed
qed

lemma keys_sum_board_score:
  assumes "distinct (map fst lb)"
  shows "sum_list (map (\<lambda>k. slot_score nm (the (map_of lb k))) (map fst lb)) = board_score lb nm"
proof -
  have eq: "map (\<lambda>p. slot_score nm (the (map_of lb (fst p)))) lb =
        map (\<lambda>p. slot_score nm (snd p)) lb"
  proof (rule map_cong [OF refl])
    fix p assume "p \<in> set lb"
    then have "(fst p, snd p) \<in> set lb" by simp
    from map_of_is_SomeI [OF assms this]
    show "slot_score nm (the (map_of lb (fst p))) = slot_score nm (snd p)" by simp
  qed
  show ?thesis
    unfolding board_score_def map_map comp_def
    by (rule arg_cong [where f = sum_list]) (rule eq)
qed

lemma board_score_values:
  "map snd lb = map Some sr \<Longrightarrow>
   board_score lb nm = sum_list (map snd (filter (\<lambda>p. fst p = nm) sr))"
proof (induction lb arbitrary: sr)
  case Nil
  then show ?case by (simp add: board_score_def)
next
  case (Cons p lb)
  then obtain q sr' where sr: "sr = q # sr'" "snd p = Some q" "map snd lb = map Some sr'"
    by (cases sr) auto
  from Cons.IH [OF sr(3)] sr(1,2) show ?case
    by (cases q) (simp add: board_score_def slot_score_def)
qed

lemma sum_filter_distinct:
  "distinct (map fst al) \<Longrightarrow>
   sum_list (map snd (filter (\<lambda>p. fst p = nm) al)) =
     (case map_of al nm of Some s \<Rightarrow> s | None \<Rightarrow> (0 :: int))"
proof (induction al)
  case Nil
  then show ?case by simp
next
  case (Cons p al)
  then have IH: "sum_list (map snd (filter (\<lambda>p. fst p = nm) al)) =
     (case map_of al nm of Some s \<Rightarrow> s | None \<Rightarrow> 0)" by simp
  show ?case
  proof (cases "fst p = nm")
    case True
    with Cons.prems have "map_of al nm = None"
      by (auto simp: map_of_eq_None_iff)
    with IH True show ?thesis by (cases p) simp
  next
    case False
    with IH show ?thesis by (cases p) auto
  qed
qed

lemma update_leaderboard_steps:
  assumes "distinct (map fst lb)" and "length lb = length results"
    and "distinct (map (\<lambda>p. name (h (fst p))) results)"
    and "update_leaderboard h lb results = Inr lb'"
  shows "\<exists>srt n2s. py_sorted lt_outcome snd results = Inr srt \<and>
           add_previous lb (map fst lb) (name2score_of h (length results) srt) = Inr n2s \<and>
           map fst (name2score_of h (length results) srt) = map (\<lambda>p. name (h (fst p))) srt \<and>
           map fst n2s = map (\<lambda>p. name (h (fst p))) srt \<and>
           distinct (map (\<lambda>p. name (h (fst p))) srt) \<and>
           mset srt = mset results \<and>
           map snd lb' = map Some (sort_key (\<lambda>x. - snd x) n2s)"
proof -
  from assms(4) obtain srt n2s sr where
    srt: "py_sorted lt_outcome snd results = Inr srt"
    and n2s: "add_previous lb (map fst lb) (name2score_of h (length results) srt) = Inr n2s"
    and sr: "py_sorted lt_int (\<lambda>x. - snd x) n2s = Inr sr"
    and fin: "assign_ranks (map fst lb) 0 sr lb = Inr lb'"
    unfolding update_leaderboard_def Let_def by (auto split: sum.splits)
  note m = py_sorted_mset [OF srt]
  then have mn: "mset (map (\<lambda>p. name (h (fst p))) srt) = mset (map (\<lambda>p. name (h (fst p))) results)"
    by simp
  with assms(3) have d: "distinct (map (\<lambda>p. name (h (fst p))) srt)"
    by (metis mset_eq_imp_distinct_iff)
  from m have l: "length srt = length results" by (metis size_mset)
  have k0: "map fst (name2score_of h (length results) srt) = map (\<lambda>p. name (h (fst p))) srt"
    unfolding name2score_of_distinct [OF d] by (rule nth_equalityI) simp_all
  from add_previous_keys [OF n2s] k0
  have k1: "map fst n2s = map (\<lambda>p. name (h (fst p))) srt" by simp
  from sr have sr_eq: "sr = sort_key (\<lambda>x. - snd x) n2s" by (simp add: py_sorted_lt_int)
  then have "mset sr = mset n2s" by simp
  then have lsr: "length sr = length n2s" by (metis size_mset)
  also from k1 have "\<dots> = length srt" by (metis length_map)
  finally have len: "0 + length sr \<le> length (map fst lb)"
    using l assms(2) by simp
  from assign_ranks_result [OF assms(1) refl len] fin
  have "map snd lb' = map Some sr"
    using lsr k1 l assms(2) by (auto dest: arg_cong [where f = length])
  with srt n2s k0 k1 d m sr_eq show ?thesis by blast
qed

lemma update_leaderboard_scores:
  assumes "distinct (map fst lb)" and "length lb = length results"
    and "distinct (map (\<lambda>p. name (h (fst p))) results)"
    and "update_leaderboard h lb results = Inr lb'"
    and "nm \<in> set (map (\<lambda>p. name (h (fst p))) results)"
  shows "board_score lb' nm = board_score lb nm + race_score h results nm"
proof -
  from update_leaderboard_steps [OF assms(1-4)] obtain srt n2s where
    srt: "py_sorted lt_outcome snd results = Inr srt"
    and n2s: "add_previous lb (map fst lb) (name2score_of h (length results) srt) = Inr n2s"
    and k0: "map fst (name2score_of h (length results) srt) = map (\<lambda>p. name (h (fst p))) srt"
    and k1: "map fst n2s = map (\<lambda>p. name (h (fst p))) srt"
    and d: "distinct (map (\<lambda>p. name (h (fst p))) srt)"
    and m: "mset srt = mset results"
    and v: "map snd lb' = map Some (sort_key (\<lambda>x. - snd x) n2s)"
    by blast
  let ?n0 = "name2score_of h (length results) srt"
  from m have "set (map (\<lambda>p. name (h (fst p))) srt) = set (map (\<lambda>p. name (h (fst p))) results)"
    by (metis mset_map set_mset_mset)
  with assms(5) k0 have "nm \<in> fst ` set ?n0"
    by (metis list.set_map)
  then obtain s where s: "map_of ?n0 nm = Some s"
    by (metis map_of_eq_None_iff not_Some_eq)
  with srt have rs: "race_score h results nm = s" by (simp add: race_score_def)
  from add_previous_scores [OF n2s, of nm] s keys_sum_board_score [OF assms(1), of nm]
  have n: "map_of n2s nm = Some (s + board_score lb nm)" by simp
  have "board_score lb' nm =
        sum_list (map snd (filter (\<lambda>p. fst p = nm) (sort_key (\<lambda>x. - snd x) n2s)))"
    by (rule board_score_values [OF v])
  also have "\<dots> = sum_mset (mset (map snd (filter (\<lambda>p. fst p = nm) (sort_key (\<lambda>x. - snd x) n2s))))"
    by (simp only: sum_mset_sum_list)
  also have "mset (map snd (filter (\<lambda>p. fst p = nm) (sort_key (\<lambda>x. - snd x) n2s))) =
             mset (map snd (filter (\<lambda>p. fst p = nm) n2s))"
    by simp
  also have "sum_mset (mset (map snd (filter (\<lambda>p. fst p = nm) n2s))) =
             sum_list (map snd (filter (\<lambda>p. fst p = nm) n2s))"
    by (simp only: sum_mset_sum_list)
  also have "\<dots> = (case map_of n2s nm of Some s \<Rightarrow> s | None \<Rightarrow> 0)"
    by (rule sum_filter_distinct) (simp add: k1 d)
  finally show ?thesis using n rs by simp
qed

lemma conduct_round_scores:
  assumes "valid_heap h" and "distinct (map fst lb)" and "length lb = length (comp_runners c)"
    and "distinct (map (\<lambda>a. name (h a)) (comp_runners c))"
    and "conduct_round c i h lb = Inr (h', lb')"
    and "nm \<in> set (map (\<lambda>a. name (h a)) (comp_runners c))"
  shows "\<exists>h2 sr mr. round_races c i h = Inr (h2, sr, mr) \<and> recover_dnf h2 mr = Inr h' \<and>
           board_score lb' nm = board_score lb nm + race_score h' sr nm + race_score h' mr nm"
proof -
  from assms(5) obtain h2 sr mr h3 lb1 where
    rr: "round_races c i h = Inr (h2, sr, mr)"
    and rc: "recover_dnf h2 mr = Inr h3"
    and u1: "update_leaderboard h3 lb sr = Inr lb1"
    and u2: "update_leaderboard h3 lb1 mr = Inr lb'"
    and hh: "h' = h3"
    unfolding conduct_round_def by (auto split: sum.splits)
  note p = round_races_props [OF assms(1) rr]
  then have v2: "valid_heap h2" by simp
  from rc recover_dnf_valid [OF v2, of mr]
  have h3: "h3 = (\<lambda>a. if (a, DNF) \<in> set mr then (h2 a)\<lparr>energy := 1000\<rparr> else h2 a)"
    by simp
  have n3: "name (h3 a) = name (h a)" for a
  proof -
    from p obtain e where "h2 a = (h a)\<lparr>energy := e\<rparr>" by blast
    then show ?thesis by (simp add: h3)
  qed
  have ns: "map (\<lambda>p. name (h3 (fst p))) sr = map (\<lambda>a. name (h a)) (comp_runners c)"
    and nm: "map (\<lambda>p. name (h3 (fst p))) mr = map (\<lambda>a. name (h a)) (comp_runners c)"
  proof -
    have "map (\<lambda>p. name (h (fst p))) xs = map (\<lambda>a. name (h a)) (map fst xs)"
      for xs :: results
      by simp
    with p show "map (\<lambda>p. name (h3 (fst p))) sr = map (\<lambda>a. name (h a)) (comp_runners c)"
      and "map (\<lambda>p. name (h3 (fst p))) mr = map (\<lambda>a. name (h a)) (comp_runners c)"
      by (simp_all only: n3)
  qed
  from p have ls: "length sr = length (comp_runners c)" and lm: "length mr = length (comp_runners c)"
    by (metis length_map)+
  have l0: "length lb = length sr" using assms(3) ls by simp
  have d0: "distinct (map (\<lambda>p. name (h3 (fst p))) sr)" unfolding ns by (rule assms(4))
  have dm: "distinct (map (\<lambda>p. name (h3 (fst p))) mr)" unfolding nm by (rule assms(4))
  from update_leaderboard_full [OF assms(2) l0 d0 u1]
  have k1: "map fst lb1 = map fst lb" by simp
  then have d1: "distinct (map fst lb1)" and l1: "length lb1 = length mr"
    using assms(2,3) lm by (simp_all, metis length_map)
  from update_leaderboard_scores [OF assms(2) l0 d0 u1, of nm] assms(6)
  have s1: "board_score lb1 nm = board_score lb nm + race_score h3 sr nm"
    unfolding ns by simp
  from update_leaderboard_scores [OF d1 l1 dm u2, of nm] assms(6)
  have s2: "board_score lb' nm = board_score lb1 nm + race_score h3 mr nm"
    unfolding nm by simp
  from rr rc s1 s2 hh show ?thesis by simp
qed

lemma comp_loop_scores:
  "valid_heap h \<Longrightarrow> distinct (map fst lb) \<Longrightarrow> length lb = length (comp_runners c) \<Longrightarrow>
   distinct (map (\<lambda>a. name (h a)) (comp_runners c)) \<Longrightarrow>
   comp_loop c n i h lb = Inr (h', lb') \<Longrightarrow>
   nm \<in> set (map (\<lambda>a. name (h a)) (comp_runners c)) \<Longrightarrow>
   board_score lb' nm = board_score lb nm + total_points c n i h nm"
proof (induction c n i h lb rule: comp_loop.induct)
  case (1 c n i h lb)
  show ?case
  proof (cases "n \<le> rounds c")
    case False
    with "1.prems"(5) show ?thesis
      by (simp add: comp_loop.simps [of c n] total_points.simps [of c n])
  next
    case True
    with "1.prems"(5) obtain h1 lb1 where
      r: "conduct_round c i h lb = Inr (h1, lb1)"
      and l: "comp_loop c (n + 1) i h1 lb1 = Inr (h', lb')"
      by (auto simp: comp_loop.simps [of c n] split: sum.splits)
    from conduct_round_board [OF "1.prems"(1-4) r]
    have b: "valid_heap h1" "\<forall>a. name (h1 a) = name (h a)" "map fst lb1 = map fst lb"
      by simp_all
    from b(3) "1.prems"(2,3) have d1: "distinct (map fst lb1)"
      and l1: "length lb1 = length (comp_runners c)"
      by (simp_all, metis length_map)
    from b(2) have nn: "map (\<lambda>a. name (h1 a)) (comp_runners c) = map (\<lambda>a. name (h a)) (comp_runners c)"
      by simp
    from "1.prems"(4) have dn: "distinct (map (\<lambda>a. name (h1 a)) (comp_runners c))"
      unfolding nn .
    from "1.prems"(6) have mem: "nm \<in> set (map (\<lambda>a. name (h1 a)) (comp_runners c))"
      unfolding nn .
    from conduct_round_scores [OF "1.prems"(1-4) r "1.prems"(6)] obtain h2 sr mr where
      rr: "round_races c i h = Inr (h2, sr, mr)" and rc: "recover_dnf h2 mr = Inr h1"
      and s: "board_score lb1 nm = board_score lb nm + race_score h1 sr nm + race_score h1 mr nm"
      by blast
    from "1.IH" [OF True r refl b(1) d1 l1 dn l mem]
    have "board_score lb' nm = board_score lb1 nm + total_points c (n + 1) i h1 nm" .
    with s True rr rc show ?thesis
      by (simp add: total_points.simps [of c n])
  qed
qed

lemma board_score_empty:
  "board_score (map (\<lambda>k. (k, None)) ks) nm = 0"
  by (induction ks) (simp_all add: board_score_def slot_score_def)

text \<open>
  Take a competition that its constructor built, over valid runners no two of which have
  the same name. When \<^verbatim>\<open>conduct_competition\<close> returns, the keys of
  the leaderboard are the ordinals of 1 to the size of the roster, in this order and all
  different, each the decimal number followed by its English suffix (with \<open>th\<close> for 11,
  12 and 13); every slot holds a pair of a name and a score, the names in the slots are
  the names of the roster, each once, and the scores do not increase down the ranks.
  The score that the leaderboard holds for a runner is the cumulative score: the sum of
  the scores of the runner in all the races of the rounds.
\<close>

lemma leaderboard_after_competition:
  assumes "competition_init rs rn ds dm = Inr c" and "valid_heap h"
    and "distinct (map (\<lambda>a. name (h a)) (comp_runners c))"
    and "conduct_competition h c = Inr (h', lb)"
  shows "map fst lb = map (\<lambda>i. get_ordinal (int i)) [1..<length (comp_runners c) + 1] \<and>
         (\<forall>i. get_ordinal (int i) = str_nat i @ ordinal_suffix i) \<and>
         distinct (map fst lb) \<and> length lb = length (comp_runners c) \<and>
         full_board (map (\<lambda>a. name (h a)) (comp_runners c)) lb \<and>
         (\<forall>a \<in> set (comp_runners c).
            board_score lb (name (h a)) = total_points c 1 0 h (name (h a)))"
proof -
  note f = competition_init_fields [OF assms(1)]
  let ?keys = "map (\<lambda>i. get_ordinal (int i)) [1..<length (comp_runners c) + 1]"
  from f have k: "map fst (leaderboard c) = ?keys"
    by (simp add: comp_def)
  have d: "distinct (map fst (leaderboard c))"
    unfolding k by (rule ordinals_distinct)
  from k have l: "length (leaderboard c) = length (comp_runners c)"
    by (metis length_map diff_add_inverse2 length_upt add.commute)
  from comp_loop_board [OF assms(2) d l assms(3) assms(4) [unfolded conduct_competition_def]] f
  have "map fst lb = map fst (leaderboard c)"
    "full_board (map (\<lambda>a. name (h a)) (comp_runners c)) lb"
    by simp_all
  moreover from this(1) l have "length lb = length (comp_runners c)"
    by (metis length_map)
  moreover have z: "board_score (leaderboard c) nm = 0" for nm
  proof -
    have "leaderboard c = map (\<lambda>k. (k, None)) ?keys"
      by (simp only: f [THEN conjunct1] map_map comp_def)
    then show ?thesis by (simp only: board_score_empty)
  qed
  have "\<forall>a \<in> set (comp_runners c).
            board_score lb (name (h a)) = total_points c 1 0 h (name (h a))"
  proof
    fix a assume "a \<in> set (comp_runners c)"
    then have "name (h a) \<in> set (map (\<lambda>a. name (h a)) (comp_runners c))" by simp
    from comp_loop_scores
      [OF assms(2) d l assms(3) assms(4) [unfolded conduct_competition_def] this]
    show "board_score lb (name (h a)) = total_points c 1 0 h (name (h a))"
      by (simp only: z add_0)
  qed
  ultimately show ?thesis
    using k d get_ordinal_nat by simp
qed

lemma example_competition_init:
  "competition_init (PList [PRunner 0, PRunner 1]) (PInt 1) (PList [PFloat (Fin 1)])
     (PList [PFloat (Fin 2)]) = Inr example_competition"
  by (simp add: competition_init_def MAX_ROUNDS_def get_ordinal_def str_int_def str_nat.simps
      digit_char_def suffixes_def example_competition_def)

lemma example_competition_run:
  "conduct_competition example_heap example_competition =
     Inr (example_heap(0 := elijah\<lparr>energy := 800\<rparr>, 1 := rupert\<lparr>energy := 800\<rparr>),
          [(''1st'', Some (''Elijah'', 2)), (''2nd'', Some (''Rupert'', 0))])"
  by (simp add: conduct_competition_def comp_loop.simps conduct_round_def round_races_def
      py_index_def ShortRace_def MarathonRace_def race_init_def conduct_race_def run_race_def
      drain_energy_def update_leaderboard_def name2score_of_def example_heap_def elijah_def
      rupert_def lt_int_def enumerate_eq_zip round_half_even_def Let_def numeral_2_eq_2
      example_competition_def)

lemma leaderboard_after_competition_example:
  "competition_init (PList [PRunner 0, PRunner 1]) (PInt 1) (PList [PFloat (Fin 1)])
     (PList [PFloat (Fin 2)]) = Inr example_competition \<and>
   valid_heap example_heap \<and>
   distinct (map (\<lambda>a. name (example_heap a)) (comp_runners example_competition)) \<and>
   conduct_competition example_heap example_competition =
     Inr (example_heap(0 := elijah\<lparr>energy := 800\<rparr>, 1 := rupert\<lparr>energy := 800\<rparr>),
          [(''1st'', Some (''Elijah'', 2)), (''2nd'', Some (''Rupert'', 0))]) \<and>
   full_board (map (\<lambda>a. name (example_heap a)) (comp_runners example_competition))
     [(''1st'', Some (''Elijah'', 2)), (''2nd'', Some (''Rupert'', 0))] \<and>
   total_points example_competition 1 0 example_heap ''Elijah'' = 2"
proof -
  have d: "distinct (map (\<lambda>a. name (example_heap a)) (comp_runners example_competition))"
    by (simp add: example_competition_def example_heap_def elijah_def rupert_def)
  note t = leaderboard_after_competition
    [OF example_competition_init valid_example_heap d example_competition_run]
  from t
  have b: "full_board (map (\<lambda>a. name (example_heap a)) (comp_runners example_competition))
     [(''1st'', Some (''Elijah'', 2)), (''2nd'', Some (''Rupert'', 0))]"
    by (elim conjE)
  from t have "\<forall>a \<in> set (comp_runners example_competition).
      board_score [(''1st'', Some (''Elijah'', 2)), (''2nd'', Some (''Rupert'', 0))]
        (name (example_heap a)) =
      total_points example_competition 1 0 example_heap (name (example_heap a))"
    by (elim conjE)
  then have "board_score [(''1st'', Some (''Elijah'', 2)), (''2nd'', Some (''Rupert'', 0))]
        (name (example_heap 0)) =
      total_points example_competition 1 0 example_heap (name (example_heap 0))"
    by (simp add: example_competition_def)
  then have s: "total_points example_competition 1 0 example_heap ''Elijah'' = 2"
    by (simp add: board_score_def slot_score_def example_heap_def elijah_def)
  from example_competition_init valid_example_heap d example_competition_run b s
  show ?thesis by (intro conjI)
qed

text \<open>
  Claim C4. After the rounds the leaderboard has to hold, under the ordinals of 1 to the
  size of the roster, a pair of a name and a score for every runner of the roster. The
  constructors accept two runners of the same name; on such a roster the competition
  completes and the leaderboard holds one pair, in the first slot, and \<^verbatim>\<open>None\<close> in
  the second, on which \<^verbatim>\<open>print_leaderboard\<close> fails. The pair holds the score 0: the
  points of the winner of each race are lost. On a roster of different names the code
  does what the claim says: see \<open>leaderboard_after_competition\<close>.
\<close>

theorem leaderboard_same_name:
  "competition_init (PList [PRunner 0, PRunner 1]) (PInt 1) (PList [PFloat (Fin 1)])
     (PList [PFloat (Fin 2)]) = Inr example_competition \<and>
   valid_heap twin_heap \<and>
   conduct_competition twin_heap example_competition =
     Inr (twin_heap(0 := elijah\<lparr>energy := 800\<rparr>, 1 := elijah\<lparr>energy := 800\<rparr>),
          [(''1st'', Some (''Elijah'', 0)), (''2nd'', None)])"
proof -
  have "valid_heap twin_heap"
    by (simp add: valid_heap_def twin_heap_def valid_runner_def energy_ok_def elijah_def)
  moreover have "conduct_competition twin_heap example_competition =
     Inr (twin_heap(0 := elijah\<lparr>energy := 800\<rparr>, 1 := elijah\<lparr>energy := 800\<rparr>),
          [(''1st'', Some (''Elijah'', 0)), (''2nd'', None)])"
    by (simp add: conduct_competition_def comp_loop.simps conduct_round_def round_races_def
      py_index_def ShortRace_def MarathonRace_def race_init_def conduct_race_def run_race_def
      drain_energy_def update_leaderboard_def name2score_of_def twin_heap_def elijah_def
      lt_int_def enumerate_eq_zip round_half_even_def Let_def numeral_2_eq_2
      example_competition_def)
  ultimately show ?thesis using example_competition_init by (intro conjI)
qed

lemma ordinal_examples:
  "map get_ordinal [1, 2, 3, 4, 11, 12, 13, 21, 22, 23, 101, 111, 112, 113] =
     [''1st'', ''2nd'', ''3rd'', ''4th'', ''11th'', ''12th'', ''13th'',
      ''21st'', ''22nd'', ''23rd'', ''101st'', ''111th'', ''112th'', ''113th'']"
  by (simp add: get_ordinal_def str_int_def str_nat.simps digit_char_def suffixes_def)

end
